theory Spec2Isabelle
  imports Main
begin

section \<open>Errors\<close>

text \<open>
  The exceptions the modelled functions of \<^verbatim>\<open>svg_present/__init__.py\<close> can raise.
  \<open>ValueError\<close> is what Python raises when a tuple unpacking gets the wrong number of
  values, \<open>IndexError\<close> when a string is indexed out of range, \<open>KeyError\<close> when a
  dictionary lacks a key, and \<open>ParseError\<close> is the XML parser's.
\<close>

datatype error = ValueError | IndexError | KeyError | ParseError

section \<open>Strings\<close>

text \<open>
  A Python string is modelled as a list of characters, each standing for one code point
  below 256. \<open>str.strip()\<close> removes the characters for which \<open>str.isspace\<close> holds; in
  that range they are the code points 9 to 13, 28 to 32, 133 and 160.
\<close>

definition is_space :: "char \<Rightarrow> bool" where
  "is_space c = ((of_char c :: nat) \<in> {9, 10, 11, 12, 13, 28, 29, 30, 31, 32, 133, 160})"

definition strip :: "string \<Rightarrow> string" where
  "strip s = rev (dropWhile is_space (rev (dropWhile is_space s)))"

text \<open>
  \<open>s.split(sep)\<close> for a separator of one character: the pieces between the separators,
  empty pieces included, so that the empty string gives one empty piece.
\<close>

fun split_on :: "char \<Rightarrow> string \<Rightarrow> string list" where
  "split_on sep [] = [[]]"
| "split_on sep (c # cs) =
     (if c = sep then [] # split_on sep cs
      else (case split_on sep cs of
              [] \<Rightarrow> [[c]]
            | piece # pieces \<Rightarrow> (c # piece) # pieces))"

text \<open>\<open>sep.join(xs)\<close>.\<close>

fun join :: "string \<Rightarrow> string list \<Rightarrow> string" where
  "join sep [] = []"
| "join sep [x] = x"
| "join sep (x # y # ys) = x @ sep @ join sep (y # ys)"

section \<open>Style maps\<close>

text \<open>
  A Python \<open>dict\<close> keeps its keys in insertion order, and \<open>d[key] = value\<close> on a key
  that is present replaces the value where the key stands. The model is an association
  list with that assignment; \<open>d.update(other)\<close> assigns the items of \<open>other\<close> in
  their order.
\<close>

type_synonym dict = "(string \<times> string) list"

fun dict_set :: "string \<Rightarrow> string \<Rightarrow> dict \<Rightarrow> dict" where
  "dict_set key val [] = [(key, val)]"
| "dict_set key val ((k, v) # rest) =
     (if k = key then (k, val) # rest else (k, v) # dict_set key val rest)"

fun dict_update :: "dict \<Rightarrow> dict \<Rightarrow> dict" where
  "dict_update d [] = d"
| "dict_update d ((k, v) # other) = dict_update (dict_set k v d) other"

text \<open>
  \<^verbatim>\<open>
  def css_to_dict(css: str) -> dict[str, str]:
      if css == "":
          return dict()
      result = dict()
      for entry in css.split(";"):
          key, value = [part.strip() for part in entry.split(":")]
          result[key] = value
      return result
  \<close>
  The unpacking \<open>key, value = [...]\<close> raises \<open>ValueError\<close> unless the list has exactly
  two elements.
\<close>

fun css_entries :: "string list \<Rightarrow> dict \<Rightarrow> error + dict" where
  "css_entries [] result = Inr result"
| "css_entries (entry # rest) result =
     (case map strip (split_on CHR '':'' entry) of
        [key, val] \<Rightarrow> css_entries rest (dict_set key val result)
      | _ \<Rightarrow> Inl ValueError)"

definition css_to_dict :: "string \<Rightarrow> error + dict" where
  "css_to_dict css = (if css = [] then Inr [] else css_entries (split_on CHR '';'' css) [])"

text \<open>
  \<^verbatim>\<open>
  def dict_to_css(d: dict[str, str]) -> str:
      css = []
      for key, value in d.items():
          css.append(f"{key}: {value}")
      return "; ".join(css)
  \<close>
\<close>

definition dict_to_css :: "dict \<Rightarrow> string" where
  "dict_to_css d = join ''; '' (map (\<lambda>(key, val). key @ '': '' @ val) d)"

text \<open>
  What one well-formed entry contributes: the text before its \<open>:\<close> and the text after
  it, both trimmed. The pairs of a whole property list are those of its entries.
\<close>

definition entry_pair :: "string \<Rightarrow> string \<times> string" where
  "entry_pair e =
     (strip (takeWhile (\<lambda>c. c \<noteq> CHR '':'') e),
      strip (tl (dropWhile (\<lambda>c. c \<noteq> CHR '':'') e)))"

definition style_pairs :: "string \<Rightarrow> dict" where
  "style_pairs s = (if s = [] then [] else map entry_pair (split_on CHR '';'' s))"

text \<open>
  A key or value as \<open>css_to_dict\<close> produces it holds neither separator and is trimmed;
  a dictionary is canonical when its keys are distinct and all its keys and values are
  of that kind. An entry of the serialised form is \<open>key: value\<close>.
\<close>

definition clean :: "string \<Rightarrow> bool" where
  "clean x = (CHR '';'' \<notin> set x \<and> CHR '':'' \<notin> set x \<and> strip x = x)"

definition canon :: "dict \<Rightarrow> bool" where
  "canon d = (distinct (map fst d) \<and> (\<forall>p\<in>set d. clean (fst p) \<and> clean (snd p)))"

definition fmt :: "string \<times> string \<Rightarrow> string" where
  "fmt p = fst p @ '': '' @ snd p"


section \<open>Documents in memory\<close>

text \<open>
  An \<open>xml.etree.ElementTree.Element\<close> is a mutable object that other objects refer to:
  the document holds it in its parent's list of children and a \<open>Tree\<close> node holds it in
  its \<open>element\<close> field. The model keeps every element in a store, a list of cells whose
  index is the element's address; a cell has the element's tag, its ordered attribute
  dictionary and the addresses of its children. The fields \<open>text\<close> and \<open>tail\<close>, which the
  program never reads or writes, are left out. Creating an element appends a cell;
  nothing is ever freed.
\<close>

type_synonym addr = nat

record Element =
  tag :: string
  attrib :: dict
  kids :: "addr list"

type_synonym store = "Element list"

text \<open>\<open>element.get(key)\<close> and \<open>element.set(key, value)\<close>.\<close>

definition elem_get :: "store \<Rightarrow> addr \<Rightarrow> string \<Rightarrow> string option" where
  "elem_get h a key = map_of (attrib (h ! a)) key"

definition elem_set :: "addr \<Rightarrow> string \<Rightarrow> string \<Rightarrow> store \<Rightarrow> store" where
  "elem_set a key val h = h[a := (h ! a)\<lparr>attrib := dict_set key val (attrib (h ! a))\<rparr>]"

text \<open>
  \<^verbatim>\<open>
  def inkscape(name: str) -> str:
      return "{http://www.inkscape.org/namespaces/inkscape}" + name
  \<close>
\<close>

definition inkscape :: "string \<Rightarrow> string" where
  "inkscape name = ''{http://www.inkscape.org/namespaces/inkscape}'' @ name"

text \<open>
  The value of a document: the tree of tags and attributes that a store holds below an
  address. Serialising and parsing, which belong to the XML library, work on values.
\<close>

datatype xml = Xml string dict "xml list"

text \<open>
  Functions that follow the children of an element through the store recurse on the
  store, not on a datatype, and take a bound on the depth they may descend; \<open>None\<close>
  means that the bound was reached or that an address was outside the store. The
  lemmas below show that a bound above the depth of the document is enough.

  \<open>map_st\<close> runs a function that changes a state over a list, left to right.
\<close>

fun map_st :: "('a \<Rightarrow> 's \<Rightarrow> ('b \<times> 's) option) \<Rightarrow> 'a list \<Rightarrow> 's \<Rightarrow> ('b list \<times> 's) option" where
  "map_st f [] s = Some ([], s)"
| "map_st f (x # xs) s =
     (case f x s of
        None \<Rightarrow> None
      | Some (y, s1) \<Rightarrow>
          (case map_st f xs s1 of
             None \<Rightarrow> None
           | Some (ys, s2) \<Rightarrow> Some (y # ys, s2)))"

text \<open>The value below an address.\<close>

fun snapshot :: "nat \<Rightarrow> store \<Rightarrow> addr \<Rightarrow> xml option" where
  "snapshot 0 h a = None"
| "snapshot (Suc n) h a =
     (if a < length h
      then (case those (map (snapshot n h) (kids (h ! a))) of
              None \<Rightarrow> None
            | Some ts \<Rightarrow> Some (Xml (tag (h ! a)) (attrib (h ! a)) ts))
      else None)"

text \<open>
  \<open>copy.deepcopy(element)\<close>: a new element with the same tag, a copy of the attribute
  dictionary, and deep copies of the children. Documents are trees, so the memo of
  \<open>deepcopy\<close>, which keeps shared objects shared, has nothing to do and is left out.
  The result is the address of the copy and the store with the new cells appended.
\<close>

fun deepcopy :: "nat \<Rightarrow> addr \<Rightarrow> store \<Rightarrow> (addr \<times> store) option" where
  "deepcopy 0 a h = None"
| "deepcopy (Suc n) a h =
     (if a < length h
      then (case map_st (deepcopy n) (kids (h ! a)) h of
              None \<Rightarrow> None
            | Some (ks, h1) \<Rightarrow> Some (length h1, h1 @ [(h ! a)\<lparr>kids := ks\<rparr>]))
      else None)"

text \<open>
  The pairs (parent, child) below an address in document order, the order of
  \<open>element.iter()\<close> without the element itself: each child, then what is below it.
\<close>

fun edges :: "nat \<Rightarrow> store \<Rightarrow> addr \<Rightarrow> (addr \<times> addr) list option"
  and edges_from :: "nat \<Rightarrow> store \<Rightarrow> addr \<Rightarrow> addr list \<Rightarrow> (addr \<times> addr) list option" where
  "edges 0 h a = None"
| "edges (Suc n) h a = (if a < length h then edges_from n h a (kids (h ! a)) else None)"
| "edges_from n h parent [] = Some []"
| "edges_from n h parent (k # ks) =
     (case edges n h k of
        None \<Rightarrow> None
      | Some below \<Rightarrow>
          (case edges_from n h parent ks of
             None \<Rightarrow> None
           | Some rest \<Rightarrow> Some ((parent, k) # below @ rest)))"

text \<open>
  A store holds the document value \<open>x\<close> at address \<open>a\<close> when the cell at \<open>a\<close> has the tag
  and the attributes of \<open>x\<close> and its children hold the children of \<open>x\<close>, in order. The
  depth of a value bounds how far a traversal descends.
\<close>

fun repr :: "store \<Rightarrow> addr \<Rightarrow> xml \<Rightarrow> bool" where
  "repr h a (Xml t at ts) =
     (a < length h \<and> tag (h ! a) = t \<and> attrib (h ! a) = at \<and> list_all2 (repr h) (kids (h ! a)) ts)"

fun depth :: "xml \<Rightarrow> nat" where
  "depth (Xml t at ts) = Suc (fold max (map depth ts) 0)"

text \<open>
  The cells of a store from address \<open>m\<close> on are closed when their children lie among them.
\<close>

definition closed_from :: "nat \<Rightarrow> store \<Rightarrow> bool" where
  "closed_from m h = (\<forall>b. m \<le> b \<and> b < length h \<longrightarrow> (\<forall>k\<in>set (kids (h ! b)). m \<le> k \<and> k < length h))"

section \<open>Layer trees\<close>

text \<open>
  \<^verbatim>\<open>
  class Tree:
      def __init__(self, element: ElementTree.Element | None = None) -> None:
          self.children: list[Tree] = []
          self.element: ElementTree.Element | None = element
          self.tree: ElementTree.ElementTree | None = None
          self._visible: bool = False
  \<close>
  A \<open>Tree\<close> object is owned by one list of children, and once the forest is built only
  its flag \<open>_visible\<close> changes. The model is a datatype for what stays the same (the
  object's identity \<open>nid\<close>, the address of its element, the address of the root element
  of its \<open>ElementTree\<close>, its children) and, in the state, the flag of every object by
  identity.

  The state of the program: the store of elements, the flags, the number of \<open>Tree\<close>
  objects created so far, and the files of the cache directory by name.
\<close>

datatype Tree = Tree (nid: nat) (element: "addr option") (tree: "addr option") (children: "Tree list")

record 'b world =
  heap :: store
  visible :: "nat \<Rightarrow> bool"
  trees :: nat
  files :: "string \<Rightarrow> 'b option"

text \<open>\<open>Tree(element)\<close>: a new object without children, its flag false.\<close>

definition new_Tree :: "addr option \<Rightarrow> 'b world \<Rightarrow> Tree \<times> 'b world" where
  "new_Tree e w =
     (Tree (trees w) e None [],
      w\<lparr>visible := (visible w)(trees w := False), trees := Suc (trees w)\<rparr>)"

text \<open>
  \<^verbatim>\<open>
  @visible.setter
  def visible(self, value: bool) -> None:
      self._visible = value
      if self.element:
          if value:
              self.element.set("style", "display:inline")
          else:
              self.element.set("style", "display:none")
  \<close>
  The test \<open>if self.element\<close> is the truth value of the element. An \<open>Element\<close> has a
  length, the number of its children, and Python takes an object of length 0 for
  false: the test holds when there is an element and it has at least one child.
\<close>

definition set_visible :: "Tree \<Rightarrow> bool \<Rightarrow> 'b world \<Rightarrow> 'b world" where
  "set_visible self val w =
     (let w1 = w\<lparr>visible := (visible w)(nid self := val)\<rparr> in
      case element self of
        None \<Rightarrow> w1
      | Some a \<Rightarrow>
          if kids (heap w1 ! a) \<noteq> []
          then w1\<lparr>heap := elem_set a ''style''
                            (if val then ''display:inline'' else ''display:none'') (heap w1)\<rparr>
          else w1)"

text \<open>
  \<^verbatim>\<open>
  def __iter__(self):
      self.visible = True
      if not self.children:
          yield self
      for child in self.children:
          yield from child
      self.visible = False
  \<close>
  A generator runs interleaved with the loop that consumes it: at each \<open>yield\<close> the body
  of the loop runs on the state as the generator left it. \<open>iter_Tree body\<close> is the loop
  \<open>for x in self: body(x)\<close>; it returns the yields, each with the state at that moment
  (before the body runs), and the final state.
\<close>

fun iter_Tree :: "(Tree \<Rightarrow> 'b world \<Rightarrow> 'b world) \<Rightarrow> Tree \<Rightarrow> 'b world \<Rightarrow>
                  (Tree \<times> 'b world) list \<times> 'b world"
  and iter_children :: "(Tree \<Rightarrow> 'b world \<Rightarrow> 'b world) \<Rightarrow> Tree list \<Rightarrow> 'b world \<Rightarrow>
                  (Tree \<times> 'b world) list \<times> 'b world" where
  "iter_Tree body (Tree i e d cs) w =
     (let self = Tree i e d cs;
          w1 = set_visible self True w;
          (ys, w2) = (if cs = [] then ([(self, w1)], body self w1) else ([], w1));
          (zs, w3) = iter_children body cs w2
      in (ys @ zs, set_visible self False w3))"
| "iter_children body [] w = ([], w)"
| "iter_children body (c # cs) w =
     (let (ys, w1) = iter_Tree body c w;
          (zs, w2) = iter_children body cs w1
      in (ys @ zs, w2))"

text \<open>
  \<^verbatim>\<open>
  def layer(element: ElementTree.Element) -> Tree | None:
      if element.get(inkscape("groupmode")) != "layer":
          return None
      label = element.get(inkscape("label"))
      if label is None:
          return None
      if label[0] == "(" and label[-1] == ")":
          return None
      tree = Tree(element)
      tree.visible = False
      for child in element:
          if subtree := layer(child):
              tree.children.append(subtree)
      return tree
  \<close>
  \<open>label[0]\<close> raises \<open>IndexError\<close> on the empty string. A \<open>Tree\<close> object is always
  true. The result is \<open>None\<close> when the depth bound is reached, otherwise the error or
  the optional tree, with the state.
\<close>

fun layer :: "nat \<Rightarrow> addr \<Rightarrow> 'b world \<Rightarrow> ((error + Tree option) \<times> 'b world) option"
  and layer_children :: "nat \<Rightarrow> addr list \<Rightarrow> 'b world \<Rightarrow> ((error + Tree list) \<times> 'b world) option" where
  "layer 0 a w = None"
| "layer (Suc n) a w =
     (if a < length (heap w) then
        if elem_get (heap w) a (inkscape ''groupmode'') \<noteq> Some ''layer'' then Some (Inr None, w)
        else
          (case elem_get (heap w) a (inkscape ''label'') of
             None \<Rightarrow> Some (Inr None, w)
           | Some label \<Rightarrow>
               if label = [] then Some (Inl IndexError, w)
               else if hd label = CHR ''('' \<and> last label = CHR '')'' then Some (Inr None, w)
               else
                 (let (t, w1) = new_Tree (Some a) w;
                      w2 = set_visible t False w1
                  in case layer_children n (kids (heap w2 ! a)) w2 of
                       None \<Rightarrow> None
                     | Some (Inl err, w3) \<Rightarrow> Some (Inl err, w3)
                     | Some (Inr cs, w3) \<Rightarrow> Some (Inr (Some (Tree (nid t) (Some a) None cs)), w3)))
      else None)"
| "layer_children n [] w = Some (Inr [], w)"
| "layer_children n (k # ks) w =
     (case layer n k w of
        None \<Rightarrow> None
      | Some (Inl err, w1) \<Rightarrow> Some (Inl err, w1)
      | Some (Inr subtree, w1) \<Rightarrow>
          (case layer_children n ks w1 of
             None \<Rightarrow> None
           | Some (Inl err, w2) \<Rightarrow> Some (Inl err, w2)
           | Some (Inr cs, w2) \<Rightarrow>
               Some (Inr (case subtree of None \<Rightarrow> cs | Some t \<Rightarrow> t # cs), w2)))"

section \<open>Writing a slide\<close>

text \<open>
  The hidden marker, and the two searches of \<open>write\<close>.
  \<open>root.findall(".//*[@style='display:none']..")\<close> takes the elements below the root, in
  document order, whose \<open>style\<close> is the marker, and goes to the parent of each, keeping a
  parent once, where it first comes up. In a tree an element has one parent, the one
  under which the traversal reaches it.
  \<open>parent.findall(".*[@style='display:none']")\<close> takes the children of \<open>parent\<close> whose
  \<open>style\<close> is the marker.
\<close>

definition hidden :: "store \<Rightarrow> addr \<Rightarrow> bool" where
  "hidden h a = (elem_get h a ''style'' = Some ''display:none'')"

definition first_occurrences :: "'a list \<Rightarrow> 'a list" where
  "first_occurrences xs = rev (remdups (rev xs))"

definition findall_hidden_parents :: "nat \<Rightarrow> store \<Rightarrow> addr \<Rightarrow> addr list option" where
  "findall_hidden_parents n h root =
     map_option (\<lambda>es. first_occurrences (map fst (filter (\<lambda>(p, k). hidden h k) es)))
       (edges n h root)"

definition findall_hidden_children :: "store \<Rightarrow> addr \<Rightarrow> addr list" where
  "findall_hidden_children h parent = filter (hidden h) (kids (h ! parent))"

text \<open>
  \<open>parent.remove(node)\<close> takes the first occurrence of \<open>node\<close> out of the children of
  \<open>parent\<close>. (It raises when \<open>node\<close> is not a child; \<open>write\<close> removes only elements it has
  just found among the children.)
\<close>

definition remove_child :: "addr \<Rightarrow> addr \<Rightarrow> store \<Rightarrow> store" where
  "remove_child parent node h = h[parent := (h ! parent)\<lparr>kids := remove1 node (kids (h ! parent))\<rparr>]"

text \<open>
  \<^verbatim>\<open>
  for parent in root.findall(".//*[@style='display:none'].."):
      for node in parent.findall(".*[@style='display:none']"):
          parent.remove(node)
  \<close>
  Both \<open>findall\<close> return lists, made before the loop over them starts.
\<close>

definition prune_parent :: "addr \<Rightarrow> store \<Rightarrow> store" where
  "prune_parent parent h = fold (remove_child parent) (findall_hidden_children h parent) h"

definition prune :: "nat \<Rightarrow> addr \<Rightarrow> store \<Rightarrow> store option" where
  "prune n root h = map_option (\<lambda>parents. fold prune_parent parents h) (findall_hidden_parents n h root)"

text \<open>
  \<^verbatim>\<open>
  def write(self, path: Path) -> bool:
      for child in self.children:
          if child.visible and child.tree:
              tree = copy.deepcopy(child.tree)
              root = tree.getroot()
              for parent in root.findall(".//*[@style='display:none'].."):
                  for node in parent.findall(".*[@style='display:none']"):
                      parent.remove(node)
              if path.exists():
                  old = ElementTree.parse(path).getroot()
                  if ElementTree.tostring(old) == ElementTree.tostring(root):
                      return False
              tree.write(path)
              return True
      return False
  \<close>
  The XML library's serialiser and parser are parameters: \<open>ser\<close> gives the bytes of a
  document value, the same for \<open>ElementTree.tostring\<close> and \<open>tree.write\<close>, and \<open>par\<close>
  parses the bytes of a file, with \<open>None\<close> for a \<open>ParseError\<close>. An \<open>ElementTree\<close> object is
  always true, so \<open>child.tree\<close> tests that the field is set. The result is \<open>None\<close> when
  the depth bound is reached, otherwise what \<open>write\<close> returns or raises, with the state.
  (\<open>write\<close> is a keyword of Isabelle; the method is \<open>write_tree\<close> here.)
\<close>

fun write_children :: "(xml \<Rightarrow> 'b) \<Rightarrow> ('b \<Rightarrow> xml option) \<Rightarrow> nat \<Rightarrow> Tree list \<Rightarrow> string \<Rightarrow>
                       'b world \<Rightarrow> ((error + bool) \<times> 'b world) option" where
  "write_children ser par n [] path w = Some (Inr False, w)"
| "write_children ser par n (child # rest) path w =
     (if visible w (nid child) \<and> tree child \<noteq> None then
        (case deepcopy n (the (tree child)) (heap w) of
           None \<Rightarrow> None
         | Some (root, h1) \<Rightarrow>
             (case prune n root h1 of
                None \<Rightarrow> None
              | Some h2 \<Rightarrow>
                  (case snapshot n h2 root of
                     None \<Rightarrow> None
                   | Some doc \<Rightarrow>
                       (let w2 = w\<lparr>heap := h2\<rparr> in
                        case files w path of
                          None \<Rightarrow> Some (Inr True, w2\<lparr>files := (files w)(path \<mapsto> ser doc)\<rparr>)
                        | Some content \<Rightarrow>
                            (case par content of
                               None \<Rightarrow> Some (Inl ParseError, w2)
                             | Some old \<Rightarrow>
                                 if ser old = ser doc then Some (Inr False, w2)
                                 else Some (Inr True, w2\<lparr>files := (files w)(path \<mapsto> ser doc)\<rparr>))))))
      else write_children ser par n rest path w)"

definition write_tree :: "(xml \<Rightarrow> 'b) \<Rightarrow> ('b \<Rightarrow> xml option) \<Rightarrow> nat \<Rightarrow> Tree \<Rightarrow> string \<Rightarrow>
                     'b world \<Rightarrow> ((error + bool) \<times> 'b world) option" where
  "write_tree ser par n self path w = write_children ser par n (children self) path w"

text \<open>The cell at an address once its hidden children are gone.\<close>

definition pruned_at :: "store \<Rightarrow> addr \<Rightarrow> Element" where
  "pruned_at h a = (h ! a)\<lparr>kids := filter (\<lambda>k. \<not> hidden h k) (kids (h ! a))\<rparr>"

text \<open>
  What pruning does to a document value: below every element that stays, the children
  that carry the hidden marker go, with all that is below them, and the others are
  pruned in turn. The element at the top is not looked at.
\<close>

definition hidden_xml :: "xml \<Rightarrow> bool" where
  "hidden_xml x = (case x of Xml t at ts \<Rightarrow> map_of at ''style'' = Some ''display:none'')"

fun prune_xml :: "xml \<Rightarrow> xml" where
  "prune_xml (Xml t at ts) = Xml t at (map prune_xml (filter (\<lambda>c. \<not> hidden_xml c) ts))"


text \<open>
  The leaves of a layer tree, a leaf being a node without child nodes, in pre-order.
\<close>

fun leaves :: "Tree \<Rightarrow> Tree list" where
  "leaves (Tree i e d cs) = (if cs = [] then [Tree i e d cs] else concat (map leaves cs))"

text \<open>The identities of the nodes of a layer tree, and whether every node has an element.\<close>

fun nids :: "Tree \<Rightarrow> nat set" where
  "nids (Tree i e d cs) = insert i (\<Union>c\<in>set cs. nids c)"

fun has_elements :: "Tree \<Rightarrow> bool" where
  "has_elements (Tree i e d cs) = (e \<noteq> None \<and> (\<forall>c\<in>set cs. has_elements c))"

section \<open>A sample document\<close>

text \<open>
  A document with two layers below its root: layer \<open>A\<close> holds a path, layer \<open>B\<close> is empty
  and carries \<open>style="display:inline"\<close>. \<open>parsed\<close> is the state after parsing it, when
  \<open>main\<close> has created the root of the forest (node 0) and \<open>load_presentation\<close> the root of
  the document's tree (node 1); \<open>built\<close> is the state once \<open>layer\<close> has run on the two
  children of the document's root, and \<open>forest\<close> is the forest then. Files hold document
  values: for the samples, serialising is the identity and parsing never fails.
\<close>

definition layer_attrib :: "string \<Rightarrow> dict" where
  "layer_attrib label = [(inkscape ''groupmode'', ''layer''), (inkscape ''label'', label)]"

definition parsed :: "xml world" where
  "parsed =
     \<lparr>heap = [\<lparr>tag = ''svg'', attrib = [], kids = [1, 2]\<rparr>,
              \<lparr>tag = ''g'', attrib = layer_attrib ''A'', kids = [3]\<rparr>,
              \<lparr>tag = ''g'', attrib = layer_attrib ''B'' @ [(''style'', ''display:inline'')], kids = []\<rparr>,
              \<lparr>tag = ''path'', attrib = [], kids = []\<rparr>],
      visible = (\<lambda>i. False), trees = 2, files = (\<lambda>p. None)\<rparr>"

definition built :: "xml world" where
  "built =
     \<lparr>heap = [\<lparr>tag = ''svg'', attrib = [], kids = [1, 2]\<rparr>,
              \<lparr>tag = ''g'', attrib = layer_attrib ''A'' @ [(''style'', ''display:none'')], kids = [3]\<rparr>,
              \<lparr>tag = ''g'', attrib = layer_attrib ''B'' @ [(''style'', ''display:inline'')], kids = []\<rparr>,
              \<lparr>tag = ''path'', attrib = [], kids = []\<rparr>],
      visible = (\<lambda>i. False), trees = 4, files = (\<lambda>p. None)\<rparr>"

definition forest :: Tree where
  "forest = Tree 0 None None [Tree 1 None (Some 0) [Tree 2 (Some 1) None [], Tree 3 (Some 2) None []]]"

text \<open>A loop body that does nothing.\<close>

definition skip :: "Tree \<Rightarrow> 'b world \<Rightarrow> 'b world" where
  "skip x w = w"

text \<open>
  The child of a forest root that \<open>write\<close> takes: the first one that is visible and has a
  document. What \<open>write\<close> finds in the cache slot: the slot matches a document when it
  holds bytes that parse and serialise again to the bytes of the document, and it is
  unreadable when it holds bytes that do not parse.
\<close>

definition shown :: "Tree \<Rightarrow> 'b world \<Rightarrow> Tree option" where
  "shown self w = find (\<lambda>c. visible w (nid c) \<and> tree c \<noteq> None) (children self)"

definition slot_matches :: "(xml \<Rightarrow> 'b) \<Rightarrow> ('b \<Rightarrow> xml option) \<Rightarrow> xml \<Rightarrow> 'b option \<Rightarrow> bool" where
  "slot_matches ser par doc slot =
     (case slot of
        None \<Rightarrow> False
      | Some content \<Rightarrow> (case par content of None \<Rightarrow> False | Some old \<Rightarrow> ser old = ser doc))"

definition slot_unreadable :: "('b \<Rightarrow> xml option) \<Rightarrow> 'b option \<Rightarrow> bool" where
  "slot_unreadable par slot = (case slot of None \<Rightarrow> False | Some content \<Rightarrow> par content = None)"

text \<open>
  For the samples: a serialiser that is the identity on document values and a parser
  that accepts everything. \<open>hidden_root\<close> is a state whose only document has the hidden
  marker on its root element and on the root's second child; its forest is a forest root
  (node 0) over the document's tree (node 1), which the walk has made visible.
\<close>

definition ideal_ser :: "xml \<Rightarrow> xml" where
  "ideal_ser x = x"

definition ideal_par :: "xml \<Rightarrow> xml option" where
  "ideal_par y = Some y"

definition hidden_root :: "xml world" where
  "hidden_root =
     \<lparr>heap = [\<lparr>tag = ''svg'', attrib = [(''style'', ''display:none'')], kids = [1, 2]\<rparr>,
              \<lparr>tag = ''rect'', attrib = [], kids = []\<rparr>,
              \<lparr>tag = ''g'', attrib = [(''style'', ''display:none'')], kids = [3]\<rparr>,
              \<lparr>tag = ''path'', attrib = [], kids = []\<rparr>],
      visible = (\<lambda>i. i = 0 \<or> i = 1), trees = 2, files = (\<lambda>p. None)\<rparr>"

definition hidden_root_forest :: Tree where
  "hidden_root_forest = Tree 0 None None [Tree 1 None (Some 0) []]"

text \<open>The value of the document of \<open>hidden_root\<close>.\<close>

definition hidden_root_doc :: xml where
  "hidden_root_doc =
     Xml ''svg'' [(''style'', ''display:none'')]
       [Xml ''rect'' [] [], Xml ''g'' [(''style'', ''display:none'')] [Xml ''path'' [] []]]"

section \<open>Resolving references\<close>

text \<open>
  The loop of \<open>load_presentation\<close> that replaces every \<open>use\<close> element by a copy of the
  element it refers to.
  \<^verbatim>\<open>
  ns = {"xlink": "http://www.w3.org/1999/xlink", "svg": "http://www.w3.org/2000/svg"}
  symbol = f"{{{ns['svg']}}}symbol"
  group = f"{{{ns['svg']}}}g"
  \<close>
\<close>

definition svg :: "string \<Rightarrow> string" where
  "svg name = ''{http://www.w3.org/2000/svg}'' @ name"

definition xlink :: "string \<Rightarrow> string" where
  "xlink name = ''{http://www.w3.org/1999/xlink}'' @ name"

text \<open>\<open>element.attrib.get(key, default)\<close>, and \<open>list.index\<close>, which raises when it finds nothing.\<close>

definition attrib_get :: "store \<Rightarrow> addr \<Rightarrow> string \<Rightarrow> string \<Rightarrow> string" where
  "attrib_get h a key dflt = (case elem_get h a key of None \<Rightarrow> dflt | Some v \<Rightarrow> v)"

fun index_of :: "'a \<Rightarrow> 'a list \<Rightarrow> nat option" where
  "index_of x [] = None"
| "index_of x (y # ys) = (if y = x then Some 0 else map_option Suc (index_of x ys))"

text \<open>
  The elements below the root in document order, as \<open>root.iter()\<close> gives them after the
  root itself.
  \<^verbatim>\<open>
  parent_map = {c: p for p in tree.iter() for c in p}
  \<close>
  goes through the root and the elements below it and assigns to every child its parent,
  a later assignment replacing an earlier one.
  \<^verbatim>\<open>
  root.findall(".//svg:use", ns)
  root.find(f".//*[@id='{href[1:]}']")
  \<close>
  are the elements below the root whose tag is \<open>use\<close> in the namespace of SVG, in document
  order, and the first element below the root whose \<open>id\<close> is the text of the link after its
  first character. The path of the second search is made by putting that text between
  quotes; a text that holds a quote makes another path, which the model does not read:
  \<open>find_id\<close> gives \<open>None\<close> there, as it does when the depth bound is reached.
\<close>

definition descendants :: "nat \<Rightarrow> store \<Rightarrow> addr \<Rightarrow> addr list option" where
  "descendants n h root = map_option (map snd) (edges n h root)"

definition parent_pairs :: "store \<Rightarrow> addr list \<Rightarrow> (addr \<times> addr) list" where
  "parent_pairs h ps = concat (map (\<lambda>p. map (\<lambda>c. (c, p)) (kids (h ! p))) ps)"

definition parent_map :: "nat \<Rightarrow> store \<Rightarrow> addr \<Rightarrow> (addr \<Rightarrow> addr option) option" where
  "parent_map n h root =
     map_option (\<lambda>ds. map_of (rev (parent_pairs h (root # ds)))) (descendants n h root)"

definition findall_use :: "nat \<Rightarrow> store \<Rightarrow> addr \<Rightarrow> addr list option" where
  "findall_use n h root =
     map_option (filter (\<lambda>k. tag (h ! k) = svg ''use'')) (descendants n h root)"

definition find_id :: "nat \<Rightarrow> store \<Rightarrow> addr \<Rightarrow> string \<Rightarrow> addr option option" where
  "find_id n h root ident =
     (if CHR 0x27 \<in> set ident then None
      else map_option (find (\<lambda>k. elem_get h k ''id'' = Some ident)) (descendants n h root))"

text \<open>
  \<open>parent.insert(index, node)\<close>, and the assignment \<open>node.tag = tag\<close>.
\<close>

definition insert_child :: "addr \<Rightarrow> nat \<Rightarrow> addr \<Rightarrow> store \<Rightarrow> store" where
  "insert_child parent index node h =
     h[parent := (h ! parent)\<lparr>kids := take index (kids (h ! parent)) @ node #
                                         drop index (kids (h ! parent))\<rparr>]"

definition set_tag :: "addr \<Rightarrow> string \<Rightarrow> store \<Rightarrow> store" where
  "set_tag a t h = h[a := (h ! a)\<lparr>tag := t\<rparr>]"

text \<open>
  \<^verbatim>\<open>
  transform = [x.attrib.get("transform")]
  if "x" in x.attrib or "y" in x.attrib:
      x_coord = x.attrib.get("x", 0)
      y_coord = x.attrib.get("y", 0)
      transform.append("translate({},{})".format(x_coord, y_coord))
  transform.append(new_node.attrib.get("transform"))
  transform = [t for t in transform if t is not None]
  new_node.attrib["transform"] = " ".join(transform)
  \<close>
  The default \<open>0\<close> is a number, which \<open>format\<close> prints as \<open>0\<close>.
\<close>

definition merged_transform :: "store \<Rightarrow> addr \<Rightarrow> addr \<Rightarrow> string" where
  "merged_transform h x new_node =
     (let transform = [elem_get h x ''transform''] @
            (if elem_get h x ''x'' \<noteq> None \<or> elem_get h x ''y'' \<noteq> None
             then [Some (''translate('' @ attrib_get h x ''x'' ''0'' @ '','' @
                         attrib_get h x ''y'' ''0'' @ '')'')]
             else []) @
            [elem_get h new_node ''transform'']
      in join '' '' (map the (filter (\<lambda>t. t \<noteq> None) transform)))"

text \<open>
  The body of the loop, for the \<open>use\<close> element \<open>x\<close>.
  \<^verbatim>\<open>
  for x in root.findall(".//svg:use", ns):
      xlink = ns["xlink"]
      href = x.attrib[f"{{{xlink}}}href"]
      link_target = root.find(f".//*[@id='{href[1:]}']")
      if link_target is None:
          logging.info("There is a dead link in this document")
          continue
      parent = parent_map[x]
      index = parent[0:].index(x)
      parent.remove(x)
      new_node = copy.deepcopy(link_target)
      ...
      new_node.attrib["transform"] = " ".join(transform)
      use_css = x.attrib.get("style", "")
      target_css = link_target.get("style", "")
      use_css = css_to_dict(use_css)
      target_css = css_to_dict(target_css)
      use_css.update(target_css)
      new_node.attrib["style"] = dict_to_css(use_css)
      if new_node.tag == symbol:
          logging.info(f"Converting element {index} from symbol to group")
          new_node.tag = group
      parent.insert(index, new_node)
  \<close>
  The result is \<open>None\<close> when a search or the copy gives \<open>None\<close>, otherwise the error raised
  or the store after the body.
\<close>

definition resolve_use :: "nat \<Rightarrow> (addr \<Rightarrow> addr option) \<Rightarrow> addr \<Rightarrow> addr \<Rightarrow> store \<Rightarrow>
                           (error + store) option" where
  "resolve_use n pmap root x h =
     (case elem_get h x (xlink ''href'') of
        None \<Rightarrow> Some (Inl KeyError)
      | Some href \<Rightarrow>
          (case find_id n h root (drop 1 href) of
             None \<Rightarrow> None
           | Some None \<Rightarrow> Some (Inr h)
           | Some (Some link_target) \<Rightarrow>
               (case pmap x of
                  None \<Rightarrow> Some (Inl KeyError)
                | Some parent \<Rightarrow>
                    (case index_of x (kids (h ! parent)) of
                       None \<Rightarrow> Some (Inl ValueError)
                     | Some index \<Rightarrow>
                         (let h1 = remove_child parent x h in
                          case deepcopy n link_target h1 of
                            None \<Rightarrow> None
                          | Some (new_node, h2) \<Rightarrow>
                              (let h3 = elem_set new_node ''transform''
                                          (merged_transform h2 x new_node) h2 in
                               case css_to_dict (attrib_get h3 x ''style'' '''') of
                                 Inl err \<Rightarrow> Some (Inl err)
                               | Inr use_css \<Rightarrow>
                                   (case css_to_dict (attrib_get h3 link_target ''style'' '''') of
                                      Inl err \<Rightarrow> Some (Inl err)
                                    | Inr target_css \<Rightarrow>
                                        (let h4 = elem_set new_node ''style''
                                                    (dict_to_css (dict_update use_css target_css)) h3;
                                             h5 = (if tag (h4 ! new_node) = svg ''symbol''
                                                   then set_tag new_node (svg ''g'') h4 else h4)
                                         in Some (Inr (insert_child parent index new_node h5))))))))))"

text \<open>
  The loop: the parent map and the list of \<open>use\<close> elements are made before it starts.
\<close>

fun resolve_loop :: "nat \<Rightarrow> (addr \<Rightarrow> addr option) \<Rightarrow> addr \<Rightarrow> addr list \<Rightarrow> store \<Rightarrow>
                     (error + store) option" where
  "resolve_loop n pmap root [] h = Some (Inr h)"
| "resolve_loop n pmap root (x # xs) h =
     (case resolve_use n pmap root x h of
        None \<Rightarrow> None
      | Some (Inl err) \<Rightarrow> Some (Inl err)
      | Some (Inr h1) \<Rightarrow> resolve_loop n pmap root xs h1)"

definition resolve_uses :: "nat \<Rightarrow> addr \<Rightarrow> store \<Rightarrow> (error + store) option" where
  "resolve_uses n root h =
     (case parent_map n h root of
        None \<Rightarrow> None
      | Some pmap \<Rightarrow>
          (case findall_use n h root of
             None \<Rightarrow> None
           | Some uses \<Rightarrow> resolve_loop n pmap root uses h))"

text \<open>
  A document with one reference: a rectangle with identifier \<open>r\<close> and style \<open>fill: 1\<close>, and
  a \<open>use\<close> element that refers to it and carries the style \<open>fill:2; stroke:3\<close>.
\<close>

definition with_use :: store where
  "with_use =
     [\<lparr>tag = svg ''svg'', attrib = [], kids = [1, 2]\<rparr>,
      \<lparr>tag = svg ''rect'', attrib = [(''id'', ''r''), (''style'', ''fill: 1'')], kids = []\<rparr>,
      \<lparr>tag = svg ''use'',
       attrib = [(xlink ''href'', ''#r''), (''style'', ''fill:2; stroke:3'')], kids = []\<rparr>]"

definition with_use_doc :: xml where
  "with_use_doc =
     Xml (svg ''svg'') []
       [Xml (svg ''rect'') [(''id'', ''r''), (''style'', ''fill: 1'')] [],
        Xml (svg ''use'') [(xlink ''href'', ''#r''), (''style'', ''fill:2; stroke:3'')] []]"

section \<open>Properties of the style map\<close>

subsection \<open>Splitting\<close>

lemma split_on_nonempty: "split_on c s \<noteq> []"
  by (induction s) (auto split: list.splits)

lemma split_on_unfold:
  "split_on c s = takeWhile (\<lambda>x. x \<noteq> c) s #
     (case dropWhile (\<lambda>x. x \<noteq> c) s of [] \<Rightarrow> [] | _ # r \<Rightarrow> split_on c r)"
  by (induction s) (auto split: list.splits simp: split_on_nonempty)

lemma length_split_on: "length (split_on c s) = Suc (count_list s c)"
  by (induction s) (auto split: list.splits simp: split_on_nonempty)

lemma split_on_pieces: "p \<in> set (split_on c s) \<Longrightarrow> set p \<subseteq> set s - {c}"
proof (induction s arbitrary: p)
  case Nil then show ?case by simp
next
  case (Cons x xs)
  show ?case
  proof (cases "x = c")
    case True with Cons show ?thesis by fastforce
  next
    case False
    obtain q qs where q: "split_on c xs = q # qs"
      using split_on_nonempty[of c xs] by (cases "split_on c xs") auto
    with False Cons.prems have "p = x # q \<or> p \<in> set qs" by auto
    then show ?thesis
    proof
      assume "p = x # q"
      moreover have "set q \<subseteq> set xs - {c}" using Cons.IH[of q] q by simp
      ultimately show ?thesis using False by auto
    next
      assume "p \<in> set qs"
      then have "set p \<subseteq> set xs - {c}" using Cons.IH[of p] q by simp
      then show ?thesis by auto
    qed
  qed
qed

lemma split_on_absent: "c \<notin> set s \<Longrightarrow> split_on c s = [s]"
  by (induction s) auto

lemma split_on_append:
  "c \<notin> set a \<Longrightarrow> split_on c (a @ c # b) = a # split_on c b"
  by (induction a) auto

lemma split_on_two:
  "count_list e c = 1 \<Longrightarrow>
   split_on c e = [takeWhile (\<lambda>x. x \<noteq> c) e, tl (dropWhile (\<lambda>x. x \<noteq> c) e)]"
proof (induction e)
  case Nil then show ?case by simp
next
  case (Cons x xs)
  show ?case
  proof (cases "x = c")
    case True
    with Cons.prems have "count_list xs c = 0" by simp
    then have "c \<notin> set xs" by (simp add: count_list_0_iff)
    with True show ?thesis by (simp add: split_on_absent)
  next
    case False
    with Cons show ?thesis by simp
  qed
qed


lemma css_entry_good:
  "count_list e CHR '':'' = 1 \<Longrightarrow>
   css_entries (e # rest) acc =
     css_entries rest (dict_set (fst (entry_pair e)) (snd (entry_pair e)) acc)"
  by (simp add: split_on_two entry_pair_def)

lemma css_entry_bad:
  assumes "count_list e CHR '':'' \<noteq> 1"
  shows "css_entries (e # rest) acc = Inl ValueError"
proof -
  have "length (map strip (split_on CHR '':'' e)) \<noteq> 2"
    using assms by (simp add: length_split_on)
  then show ?thesis
    by (cases "map strip (split_on CHR '':'' e)" rule: list.exhaust)
       (auto split: list.splits)
qed

lemma css_entries_char:
  "css_entries es acc =
     (if \<forall>e\<in>set es. count_list e CHR '':'' = 1
      then Inr (dict_update acc (map entry_pair es)) else Inl ValueError)"
proof (induction es arbitrary: acc)
  case Nil then show ?case by simp
next
  case (Cons e es)
  show ?case
  proof (cases "count_list e CHR '':'' = 1")
    case True
    then show ?thesis
      using Cons.IH[of "dict_set (fst (entry_pair e)) (snd (entry_pair e)) acc"]
      by (cases "entry_pair e") (simp add: css_entry_good del: css_entries.simps)
  next
    case False
    then show ?thesis by (simp add: css_entry_bad del: css_entries.simps)
  qed
qed

lemma css_to_dict_char:
  "css_to_dict s =
     (if s = [] then Inr []
      else if \<forall>e\<in>set (split_on CHR '';'' s). count_list e CHR '':'' = 1
      then Inr (dict_update [] (map entry_pair (split_on CHR '';'' s)))
      else Inl ValueError)"
  by (simp add: css_to_dict_def css_entries_char)


subsection \<open>Trimming\<close>

lemma set_strip: "set (strip s) \<subseteq> set s"
proof -
  have "set (strip s) = set (dropWhile is_space (rev (dropWhile is_space s)))"
    by (simp add: strip_def)
  also have "\<dots> \<subseteq> set (rev (dropWhile is_space s))" by (rule set_dropWhileD[THEN subsetI])
  also have "\<dots> \<subseteq> set s" using set_dropWhileD[of _ is_space s] by auto
  finally show ?thesis .
qed

lemma dropWhile_rev_dropWhile:
  "dropWhile P (rev (dropWhile P (rev (dropWhile P s)))) =
   rev (dropWhile P (rev (dropWhile P s)))"
proof (cases "dropWhile P (rev (dropWhile P s))")
  case Nil
  then show ?thesis by (simp only: rev.simps dropWhile.simps)
next
  case (Cons y ys)
  define t where "t = dropWhile P s"
  have rt: "dropWhile P (rev t) = y # ys"
    using Cons t_def by simp
  then have "t \<noteq> []" by auto
  then have nohead: "\<not> P (hd t)"
    unfolding t_def using hd_dropWhile by metis
  obtain pre where "rev t = pre @ y # ys"
    using rt takeWhile_dropWhile_id[of P "rev t"] by metis
  then have "rev (rev t) = rev (pre @ y # ys)" by simp
  then have "t = rev ys @ y # rev pre" by simp
  then have "hd (rev (y # ys)) = hd t" by (cases "rev ys") auto
  with nohead have "\<not> P (hd (rev (y # ys)))" by simp
  then have "dropWhile P (rev (y # ys)) = rev (y # ys)"
    by (cases "rev (y # ys)") auto
  then show ?thesis using rt t_def by simp
qed

lemma strip_idem: "strip (strip s) = strip s"
proof -
  define t where "t = dropWhile is_space (rev (dropWhile is_space s))"
  have 1: "dropWhile is_space (rev t) = rev t"
    unfolding t_def using dropWhile_rev_dropWhile[of is_space s] by simp
  have 2: "dropWhile is_space t = t"
    unfolding t_def by (simp add: dropWhile_idem)
  show ?thesis using 1 2 by (simp add: strip_def t_def[symmetric])
qed

lemma strip_space_Cons: "strip (CHR '' '' # s) = strip s"
  by (simp add: strip_def is_space_def)


subsection \<open>Assignments to a dictionary\<close>

lemma dict_set_keys:
  "map fst (dict_set k v d) = (if k \<in> fst ` set d then map fst d else map fst d @ [k])"
  by (induction d) (auto simp: rev_image_eqI)

lemma dict_set_fresh: "k \<notin> fst ` set d \<Longrightarrow> dict_set k v d = d @ [(k, v)]"
  by (induction d) auto

lemma map_of_dict_set: "map_of (dict_set k v d) = (map_of d)(k \<mapsto> v)"
  by (induction d) (auto simp: fun_upd_twist)

lemma set_dict_set: "set (dict_set k v d) \<subseteq> insert (k, v) (set d)"
  by (induction d) (auto split: if_splits)

lemma distinct_dict_set: "distinct (map fst d) \<Longrightarrow> distinct (map fst (dict_set k v d))"
  by (simp add: dict_set_keys)

lemma map_of_dict_update: "map_of (dict_update d ps) = map_of d ++ map_of (rev ps)"
proof (induction ps arbitrary: d)
  case Nil then show ?case by simp
next
  case (Cons p ps)
  obtain k v where p: "p = (k, v)" by (cases p)
  have "map_of (dict_update d (p # ps)) = map_of (dict_set k v d) ++ map_of (rev ps)"
    using Cons.IH[of "dict_set k v d"] p by simp
  also have "\<dots> = map_of d ++ (map_of [(k, v)] ++ map_of (rev ps))"
    by (rule ext) (simp add: map_of_dict_set map_add_def split: option.splits)
  finally show ?case using p by simp
qed

lemma remdups_absorb: "k \<in> set K \<Longrightarrow> remdups (P @ k # K) = remdups (P @ K)"
  by (induction P) auto

lemma first_occ_absorb:
  "k \<in> set K \<Longrightarrow> rev (remdups (rev (K @ k # P))) = rev (remdups (rev (K @ P)))"
  using remdups_absorb[of k "rev K" "rev P"] by simp

lemma dict_update_keys:
  "map fst (dict_update d ps) = rev (remdups (rev (map fst d @ map fst ps)))"
  if "distinct (map fst d)"
  using that
proof (induction ps arbitrary: d)
  case Nil then show ?case by (simp add: distinct_remdups_id)
next
  case (Cons p ps)
  obtain k v where p: "p = (k, v)" by (cases p)
  have IH: "map fst (dict_update (dict_set k v d) ps) =
            rev (remdups (rev (map fst (dict_set k v d) @ map fst ps)))"
    using Cons.IH[of "dict_set k v d"] Cons.prems by (simp add: distinct_dict_set)
  show ?case
  proof (cases "k \<in> fst ` set d")
    case True
    then have "k \<in> set (map fst d)" by simp
    from first_occ_absorb[OF this, of "map fst ps"] IH True p show ?thesis
      by (simp add: dict_set_keys)
  next
    case False
    with IH p show ?thesis by (simp add: dict_set_keys)
  qed
qed

lemma distinct_dict_update:
  "distinct (map fst d) \<Longrightarrow> distinct (map fst (dict_update d ps))"
  by (simp add: dict_update_keys)

lemma set_dict_update: "set (dict_update d ps) \<subseteq> set d \<union> set ps"
proof (induction ps arbitrary: d)
  case Nil then show ?case by simp
next
  case (Cons p ps)
  obtain k v where p: "p = (k, v)" by (cases p)
  show ?case using Cons.IH[of "dict_set k v d"] set_dict_set[of k v d] p by auto
qed


subsection \<open>Parsing a serialised dictionary\<close>

lemma clean_strip_piece:
  assumes "p \<in> set (split_on CHR '':'' e)" "CHR '';'' \<notin> set e"
  shows "clean (strip p)"
proof -
  have "set p \<subseteq> set e - {CHR '':''}" using assms(1) by (rule split_on_pieces)
  then have "set (strip p) \<subseteq> set e - {CHR '':''}" using set_strip[of p] by blast
  then show ?thesis using assms(2) by (auto simp: clean_def strip_idem)
qed

lemma clean_entry_pair:
  assumes "count_list e CHR '':'' = 1" "CHR '';'' \<notin> set e"
  shows "clean (fst (entry_pair e)) \<and> clean (snd (entry_pair e))"
proof -
  have s: "split_on CHR '':'' e =
      [takeWhile (\<lambda>x. x \<noteq> CHR '':'') e, tl (dropWhile (\<lambda>x. x \<noteq> CHR '':'') e)]"
    using assms(1) by (rule split_on_two)
  have "takeWhile (\<lambda>x. x \<noteq> CHR '':'') e \<in> set (split_on CHR '':'' e)"
    and "tl (dropWhile (\<lambda>x. x \<noteq> CHR '':'') e) \<in> set (split_on CHR '':'' e)"
    by (simp_all add: s)
  then show ?thesis using assms(2) by (simp add: entry_pair_def clean_strip_piece)
qed

lemma canon_dict_update:
  assumes "canon d" "\<forall>p\<in>set ps. clean (fst p) \<and> clean (snd p)"
  shows "canon (dict_update d ps)"
  using assms set_dict_update[of d ps]
  by (auto simp: canon_def distinct_dict_update)

lemma css_to_dict_canon:
  assumes "css_to_dict s = Inr d"
  shows "canon d"
proof (cases "s = []")
  case True
  with assms show ?thesis by (simp add: css_to_dict_def canon_def)
next
  case False
  let ?es = "split_on CHR '';'' s"
  from assms False have all: "\<forall>e\<in>set ?es. count_list e CHR '':'' = 1"
    and d: "d = dict_update [] (map entry_pair ?es)"
    by (auto simp: css_to_dict_char split: if_splits)
  have "\<forall>p\<in>set (map entry_pair ?es). clean (fst p) \<and> clean (snd p)"
  proof
    fix p assume "p \<in> set (map entry_pair ?es)"
    then obtain e where e: "e \<in> set ?es" "p = entry_pair e" by auto
    from e(1) have "CHR '';'' \<notin> set e" using split_on_pieces[of e "CHR '';''" s] by auto
    with all e show "clean (fst p) \<and> clean (snd p)" by (simp add: clean_entry_pair)
  qed
  moreover have "canon []" by (simp add: canon_def)
  ultimately show ?thesis unfolding d by (rule canon_dict_update[rotated])
qed

lemma dict_to_css_fmt: "dict_to_css d = join ''; '' (map fmt d)"
proof -
  have "(\<lambda>(key, val). key @ '': '' @ val) = fmt"
    by (rule ext) (simp add: fmt_def case_prod_beta)
  then show ?thesis by (simp only: dict_to_css_def)
qed

lemma split_join:
  "\<forall>e\<in>set es. CHR '';'' \<notin> set e \<Longrightarrow> es \<noteq> [] \<Longrightarrow>
   split_on CHR '';'' (join ''; '' es) = hd es # map ((#) CHR '' '') (tl es)"
proof (induction "''; ''" es rule: join.induct)
  case 1 then show ?case by simp
next
  case (2 x) then show ?case by (simp add: split_on_absent)
next
  case (3 x y ys)
  have "split_on CHR '';'' (join ''; '' (x # y # ys)) =
        x # split_on CHR '';'' (CHR '' '' # join ''; '' (y # ys))"
    using 3(2) split_on_append[of "CHR '';''" x "CHR '' '' # join ''; '' (y # ys)"] by simp
  also have "split_on CHR '';'' (CHR '' '' # join ''; '' (y # ys)) =
        (CHR '' '' # y) # map ((#) CHR '' '') ys"
    using 3 by simp
  finally show ?case by simp
qed

lemma split_fmt:
  assumes "clean k" "clean v"
  shows "map strip (split_on CHR '':'' (fmt (k, v))) = [k, v]"
    and "map strip (split_on CHR '':'' (CHR '' '' # fmt (k, v))) = [k, v]"
proof -
  from assms have k: "CHR '':'' \<notin> set k" "strip k = k" and v: "CHR '':'' \<notin> set v" "strip v = v"
    by (simp_all add: clean_def)
  have 1: "split_on CHR '':'' (k @ CHR '':'' # CHR '' '' # v) = [k, CHR '' '' # v]"
    using k(1) v(1) by (simp add: split_on_append split_on_absent)
  have 2: "split_on CHR '':'' ((CHR '' '' # k) @ CHR '':'' # CHR '' '' # v) = [CHR '' '' # k, CHR '' '' # v]"
    using k(1) v(1) split_on_append[of "CHR '':''" "CHR '' '' # k" "CHR '' '' # v"]
    by (simp add: split_on_absent)
  show "map strip (split_on CHR '':'' (fmt (k, v))) = [k, v]"
    using 1 k v by (simp add: fmt_def strip_space_Cons)
  show "map strip (split_on CHR '':'' (CHR '' '' # fmt (k, v))) = [k, v]"
    using 2 k v by (simp add: fmt_def strip_space_Cons)
qed

lemma css_entries_fmt:
  assumes "list_all2 (\<lambda>e p. e = fmt p \<or> e = CHR '' '' # fmt p) es ps"
    and "\<forall>p\<in>set ps. clean (fst p) \<and> clean (snd p)"
    and "distinct (map fst (acc @ ps))"
  shows "css_entries es acc = Inr (acc @ ps)"
  using assms
proof (induction es ps arbitrary: acc rule: list_all2_induct)
  case Nil then show ?case by simp
next
  case (Cons e es p ps)
  obtain k v where p: "p = (k, v)" by (cases p)
  from Cons.prems p have cl: "clean k" "clean v" by auto
  from Cons.hyps(1) p have "e = fmt (k, v) \<or> e = CHR '' '' # fmt (k, v)" by simp
  then have sp: "map strip (split_on CHR '':'' e) = [k, v]"
    by (rule disjE) (simp_all only: split_fmt[OF cl])
  from Cons.prems(2) p have "k \<notin> fst ` set acc" by auto
  then have ds: "dict_set k v acc = acc @ [(k, v)]" by (rule dict_set_fresh)
  have "css_entries es (acc @ [(k, v)]) = Inr ((acc @ [(k, v)]) @ ps)"
    using Cons.prems p by (intro Cons.IH) auto
  then show ?case using sp ds p by simp
qed

lemma css_round_trip_canon:
  assumes "canon d"
  shows "css_to_dict (dict_to_css d) = Inr d"
proof (cases d)
  case Nil then show ?thesis by (simp add: css_to_dict_def dict_to_css_def)
next
  case (Cons p ps)
  let ?es = "map fmt d"
  from assms have cl: "\<forall>p\<in>set d. clean (fst p) \<and> clean (snd p)" and di: "distinct (map fst d)"
    by (simp_all add: canon_def)
  have nosemi: "\<forall>e\<in>set ?es. CHR '';'' \<notin> set e"
    using cl by (auto simp: fmt_def clean_def)
  have ne: "dict_to_css d \<noteq> []"
    unfolding dict_to_css_fmt Cons by (cases ps) (simp_all add: fmt_def)
  have sp: "split_on CHR '';'' (dict_to_css d) = fmt p # map ((#) CHR '' '') (map fmt ps)"
    unfolding dict_to_css_fmt using split_join[OF nosemi] Cons by simp
  have "list_all2 (\<lambda>e p. e = fmt p \<or> e = CHR '' '' # fmt p) (fmt p # map ((#) CHR '' '') (map fmt ps)) (p # ps)"
    by (simp add: list_all2_map1 list_all2_same)
  then have "css_entries (fmt p # map ((#) CHR '' '') (map fmt ps)) [] = Inr ([] @ p # ps)"
    using cl di Cons by (intro css_entries_fmt) auto
  then show ?thesis using ne sp Cons by (simp add: css_to_dict_def)
qed


section \<open>Claims about the style map\<close>

text \<open>
  C4, as the specification states it: \<open>css_to_dict\<close> would skip empty segments, split
  a segment on its first \<open>:\<close> only, and fail exactly when a non-empty segment has no
  \<open>:\<close>. The code does neither of the first two. The property list \<open>a:1;\<close> splits into
  the segments \<open>a:1\<close> and the empty string; no non-empty segment lacks a \<open>:\<close>, yet the
  empty segment makes the unpacking fail. The property list \<open>a:b:c\<close> is one segment that
  has a \<open>:\<close>, and its three parts make the unpacking fail as well.
\<close>

theorem css_to_dict_rejects_accepted_by_spec:
  "split_on CHR '';'' ''a:1;'' = [''a:1'', []] \<and> css_to_dict ''a:1;'' = Inl ValueError \<and>
   split_on CHR '';'' ''a:b:c'' = [''a:b:c''] \<and> css_to_dict ''a:b:c'' = Inl ValueError"
  by (simp add: css_to_dict_def)

text \<open>
  C4, amended to what the code does. The empty string gives the empty dictionary. Any
  other string is split on \<open>;\<close>, and \<open>css_to_dict\<close> fails, with \<open>ValueError\<close>, if
  and only if some segment, an empty one included, does not hold exactly one \<open>:\<close>.
  Otherwise each segment contributes the trimmed text before its \<open>:\<close> as key and the
  trimmed text after it as value, assigned in order to a dictionary that starts empty
  (so a later duplicate of a key overwrites the value where the key first stood).
\<close>

theorem css_to_dict_cases:
  "css_to_dict s =
     (if s = [] then Inr []
      else if \<forall>e\<in>set (split_on CHR '';'' s). count_list e CHR '':'' = 1
      then Inr (dict_update [] (map entry_pair (split_on CHR '';'' s)))
      else Inl ValueError)"
  by (rule css_to_dict_char)

theorem css_to_dict_cases_witness:
  "css_to_dict ''a: 1 ;b:2; a:3'' = Inr [(''a'', ''3''), (''b'', ''2'')] \<and>
   css_to_dict ''a: 1;;b:2'' = Inl ValueError"
  using css_to_dict_cases[of "''a: 1 ;b:2; a:3''"] css_to_dict_cases[of "''a: 1;;b:2''"]
  by (simp add: entry_pair_def strip_def is_space_def)

text \<open>
  C7, as the specification states it, is about every well-formed property list, and the
  specification counts a list as well-formed when no non-empty segment lacks a \<open>:\<close>.
  The property list \<open>fill:red;\<close> is of that kind: its segments are \<open>fill:red\<close> and the empty
  string. The code raises on it, so there is no parsed map to serialise and the round
  trip does not exist there. The same holds for \<open>fill:url(a:b)\<close>, one segment whose value
  holds a \<open>:\<close>.
\<close>

theorem round_trip_undefined_on_spec_well_formed:
  "split_on CHR '';'' ''fill:red;'' = [''fill:red'', []] \<and>
   css_to_dict ''fill:red;'' = Inl ValueError \<and>
   split_on CHR '';'' ''fill:url(a:b)'' = [''fill:url(a:b)''] \<and>
   css_to_dict ''fill:url(a:b)'' = Inl ValueError"
  by (simp add: css_to_dict_def)

text \<open>
  C7, amended to the property lists the code accepts, those in which every segment
  holds exactly one \<open>:\<close>. For every property list \<open>s\<close> that \<open>css_to_dict\<close> accepts, with
  result \<open>d\<close>,
  parsing the serialisation \<open>dict_to_css d\<close> gives \<open>d\<close> again: the same keys in the same
  order with the same values. Hence serialising once more reproduces \<open>dict_to_css d\<close>
  character by character: on a canonical string the round trip changes nothing. The
  keys of \<open>d\<close> are distinct; they are the keys of the entries of \<open>s\<close> in the order of their
  first appearance, and each key carries the value of its last entry.
\<close>

theorem style_round_trip:
  assumes "css_to_dict s = Inr d"
  shows "css_to_dict (dict_to_css d) = Inr d \<and>
         map_sum id dict_to_css (css_to_dict (dict_to_css d)) = Inr (dict_to_css d) \<and>
         distinct (map fst d) \<and>
         map fst d = rev (remdups (rev (map fst (style_pairs s)))) \<and>
         map_of d = map_of (rev (style_pairs s))"
proof -
  have rt: "css_to_dict (dict_to_css d) = Inr d"
    using assms by (intro css_round_trip_canon css_to_dict_canon)
  have d: "d = dict_update [] (style_pairs s)"
    using assms by (auto simp: css_to_dict_char style_pairs_def split: if_splits)
  have keys: "map fst d = rev (remdups (rev (map fst (style_pairs s))))"
    unfolding d using dict_update_keys[of "[]" "style_pairs s"] by simp
  have vals: "map_of d = map_of (rev (style_pairs s))"
    unfolding d by (simp add: map_of_dict_update)
  have "distinct (map fst d)"
    unfolding d by (simp add: distinct_dict_update)
  with rt keys vals show ?thesis by simp
qed

theorem style_round_trip_witness:
  "css_to_dict ''a:1; b :2;a: 3'' = Inr [(''a'', ''3''), (''b'', ''2'')] \<and>
   dict_to_css [(''a'', ''3''), (''b'', ''2'')] = ''a: 3; b: 2'' \<and>
   css_to_dict ''a: 3; b: 2'' = Inr [(''a'', ''3''), (''b'', ''2'')]"
proof -
  have p: "css_to_dict ''a:1; b :2;a: 3'' = Inr [(''a'', ''3''), (''b'', ''2'')]"
    by (simp add: css_to_dict_def strip_def is_space_def)
  have s: "dict_to_css [(''a'', ''3''), (''b'', ''2'')] = ''a: 3; b: 2''"
    by (simp add: dict_to_css_def)
  from style_round_trip[OF p] have "css_to_dict (dict_to_css [(''a'', ''3''), (''b'', ''2'')]) =
      Inr [(''a'', ''3''), (''b'', ''2'')]" by simp
  with p s show ?thesis by simp
qed

section \<open>Properties of the visibility walk\<close>

subsection \<open>Unfolding the walk\<close>

lemma iter_Tree_leaf:
  "iter_Tree body (Tree i e d []) w =
     ([(Tree i e d [], set_visible (Tree i e d []) True w)],
      set_visible (Tree i e d []) False (body (Tree i e d []) (set_visible (Tree i e d []) True w)))"
  by (simp add: Let_def)

lemma iter_Tree_node:
  "cs \<noteq> [] \<Longrightarrow> iter_Tree body (Tree i e d cs) w =
     (fst (iter_children body cs (set_visible (Tree i e d cs) True w)),
      set_visible (Tree i e d cs) False
        (snd (iter_children body cs (set_visible (Tree i e d cs) True w))))"
  by (simp add: Let_def split_beta)

lemma iter_children_Nil: "iter_children body [] w = ([], w)"
  by simp

lemma iter_children_Cons:
  "iter_children body (c # cs) w =
     (fst (iter_Tree body c w) @ fst (iter_children body cs (snd (iter_Tree body c w))),
      snd (iter_children body cs (snd (iter_Tree body c w))))"
  by (simp add: Let_def split_beta)

declare iter_Tree.simps [simp del] iter_children.simps [simp del]

lemmas iter_unfold = iter_Tree_leaf iter_Tree_node iter_children_Nil iter_children_Cons

subsection \<open>The nodes yielded\<close>

lemma iter_children_yields:
  assumes "\<And>c w. c \<in> set cs \<Longrightarrow> map fst (fst (iter_Tree body c w)) = leaves c"
  shows "map fst (fst (iter_children body cs w)) = concat (map leaves cs)"
  using assms
  by (induction cs arbitrary: w) (simp_all add: iter_unfold)

lemma iter_yields: "map fst (fst (iter_Tree body t w)) = leaves t"
proof (induction t arbitrary: w)
  case (Tree i e d cs)
  show ?case
  proof (cases "cs = []")
    case True
    then show ?thesis by (simp add: iter_unfold)
  next
    case False
    then show ?thesis
      using iter_children_yields[of cs body] Tree.IH
      by (simp add: iter_unfold)
  qed
qed

section \<open>Claims about the layer tree and the walk\<close>

text \<open>
  C5: whatever the loop body does at the yields, the walk of a layer tree yields its
  leaves, the nodes without child nodes, each once and in pre-order; the walk of a tree
  whose root has no children yields the root and nothing else.
\<close>

theorem walk_yields_leaves:
  "map fst (fst (iter_Tree body t w)) = leaves t \<and>
   (children t = [] \<longrightarrow> map fst (fst (iter_Tree body t w)) = [t])"
  by (cases t) (simp add: iter_yields)

theorem walk_yields_leaves_witness:
  "map fst
     (fst (iter_Tree (\<lambda>x w. w)
        (Tree 0 None None [Tree 1 None (Some 0) [Tree 2 (Some 1) None [], Tree 3 (Some 2) None []]])
        \<lparr>heap = [\<lparr>tag = ''svg'', attrib = [], kids = [1, 2]\<rparr>,
                 \<lparr>tag = ''g'', attrib = [], kids = []\<rparr>,
                 \<lparr>tag = ''g'', attrib = [], kids = []\<rparr>],
         visible = (\<lambda>i. False), trees = 4, files = (\<lambda>p. None :: unit option)\<rparr>)) =
     [Tree 2 (Some 1) None [], Tree 3 (Some 2) None []] \<and>
   map fst (fst (iter_Tree (\<lambda>x w. w) (Tree 0 None None [])
        \<lparr>heap = [], visible = (\<lambda>i. False), trees = 1, files = (\<lambda>p. None :: unit option)\<rparr>)) =
     [Tree 0 None None []]"
  using walk_yields_leaves[of "\<lambda>x w. w"
        "Tree 0 None None [Tree 1 None (Some 0) [Tree 2 (Some 1) None [], Tree 3 (Some 2) None []]]"
        "\<lparr>heap = [\<lparr>tag = ''svg'', attrib = [], kids = [1, 2]\<rparr>,
                 \<lparr>tag = ''g'', attrib = [], kids = []\<rparr>,
                 \<lparr>tag = ''g'', attrib = [], kids = []\<rparr>],
         visible = (\<lambda>i. False), trees = 4, files = (\<lambda>p. None :: unit option)\<rparr>"]
      walk_yields_leaves[of "\<lambda>x w. w" "Tree 0 None None []"
        "\<lparr>heap = [], visible = (\<lambda>i. False), trees = 1, files = (\<lambda>p. None :: unit option)\<rparr>"]
  by simp

text \<open>
  C9: when an element carries the layer-group marker and its label is the empty string,
  \<open>layer\<close> raises \<open>IndexError\<close> (from \<open>label[0]\<close>) with the state untouched, whatever depth
  it is allowed, and so it never returns a value, neither absent nor a node, for such an
  element.
\<close>

theorem layer_empty_label:
  assumes "a < length (heap w)"
    and "elem_get (heap w) a (inkscape ''groupmode'') = Some ''layer''"
    and "elem_get (heap w) a (inkscape ''label'') = Some []"
  shows "layer (Suc n) a w = Some (Inl IndexError, w) \<and>
         (\<forall>m r w'. layer m a w \<noteq> Some (Inr r, w'))"
proof -
  have 1: "layer (Suc n) a w = Some (Inl IndexError, w)" for n
    using assms by simp
  have "layer m a w \<noteq> Some (Inr r, w')" for m r w'
    using 1[of "m - 1"] by (cases m) simp_all
  with 1 show ?thesis by blast
qed

theorem layer_empty_label_witness:
  "layer 1 0
     \<lparr>heap = [\<lparr>tag = ''g'', attrib = [(inkscape ''groupmode'', ''layer''), (inkscape ''label'', [])],
               kids = []\<rparr>],
      visible = (\<lambda>i. False), trees = 0, files = (\<lambda>p. None :: unit option)\<rparr> =
   Some (Inl IndexError,
     \<lparr>heap = [\<lparr>tag = ''g'', attrib = [(inkscape ''groupmode'', ''layer''), (inkscape ''label'', [])],
               kids = []\<rparr>],
      visible = (\<lambda>i. False), trees = 0, files = (\<lambda>p. None :: unit option)\<rparr>)"
proof -
  let ?w = "\<lparr>heap = [\<lparr>tag = ''g'', attrib = [(inkscape ''groupmode'', ''layer''), (inkscape ''label'', [])],
               kids = []\<rparr>],
      visible = (\<lambda>i. False), trees = 0, files = (\<lambda>p. None :: unit option)\<rparr>"
  have a: "0 < length (heap ?w)" by simp
  have g: "elem_get (heap ?w) 0 (inkscape ''groupmode'') = Some ''layer''"
    by (simp add: elem_get_def)
  have l: "elem_get (heap ?w) 0 (inkscape ''label'') = Some []"
    by (simp add: elem_get_def inkscape_def)
  from layer_empty_label[OF a g l, of 0] show ?thesis by simp
qed

section \<open>Properties of the flags\<close>

subsection \<open>The setter\<close>

lemma built_by_layer:
  "layer_children 2 [1, 2] parsed = Some (Inr (children (hd (children forest))), built)"
  by (simp add: eval_nat_numeral parsed_def built_def forest_def layer_attrib_def elem_get_def
      inkscape_def new_Tree_def set_visible_def elem_set_def Let_def fun_eq_iff)

lemma visible_set_visible [simp]: "visible (set_visible t v w) = (visible w)(nid t := v)"
  by (simp add: set_visible_def Let_def split: option.splits)

lemma trees_set_visible [simp]: "trees (set_visible t v w) = trees w"
  by (simp add: set_visible_def Let_def split: option.splits)

lemma files_set_visible [simp]: "files (set_visible t v w) = files w"
  by (simp add: set_visible_def Let_def split: option.splits)

lemma heap_set_visible_None: "element t = None \<Longrightarrow> heap (set_visible t v w) = heap w"
  by (simp add: set_visible_def Let_def)

lemma length_heap_set_visible [simp]: "length (heap (set_visible t v w)) = length (heap w)"
  by (simp add: set_visible_def Let_def elem_set_def split: option.splits)

subsection \<open>Flags outside a subtree\<close>

text \<open>
  A walk changes the flags of the nodes it walks and no others, as long as the loop body
  leaves the flags alone.
\<close>

lemma iter_children_flags_outside:
  assumes body: "\<And>x w. visible (body x w) = visible w"
    and IH: "\<And>c w. c \<in> set cs \<Longrightarrow> i \<notin> nids c \<Longrightarrow>
              visible (snd (iter_Tree body c w)) i = visible w i \<and>
              (\<forall>y\<in>set (fst (iter_Tree body c w)). visible (snd y) i = visible w i)"
    and out: "i \<notin> (\<Union>c\<in>set cs. nids c)"
  shows "visible (snd (iter_children body cs w)) i = visible w i \<and>
         (\<forall>y\<in>set (fst (iter_children body cs w)). visible (snd y) i = visible w i)"
  using IH out
proof (induction cs arbitrary: w)
  case Nil
  then show ?case by (simp add: iter_unfold)
next
  case (Cons c cs)
  have c: "visible (snd (iter_Tree body c w)) i = visible w i"
    "\<forall>y\<in>set (fst (iter_Tree body c w)). visible (snd y) i = visible w i"
    using Cons.prems(1)[of c w] Cons.prems(2) by auto
  have r: "visible (snd (iter_children body cs (snd (iter_Tree body c w)))) i =
           visible (snd (iter_Tree body c w)) i \<and>
         (\<forall>y\<in>set (fst (iter_children body cs (snd (iter_Tree body c w)))).
             visible (snd y) i = visible (snd (iter_Tree body c w)) i)"
    using Cons.prems by (intro Cons.IH) auto
  show ?case using c r by (auto simp: iter_unfold)
qed

lemma iter_Tree_flags_outside:
  assumes body: "\<And>x w. visible (body x w) = visible w"
  shows "i \<notin> nids t \<Longrightarrow>
         visible (snd (iter_Tree body t w)) i = visible w i \<and>
         (\<forall>y\<in>set (fst (iter_Tree body t w)). visible (snd y) i = visible w i)"
proof (induction t arbitrary: w)
  case (Tree j e d cs)
  let ?t = "Tree j e d cs"
  from Tree.prems have ij: "i \<noteq> j" and out: "i \<notin> (\<Union>c\<in>set cs. nids c)" by auto
  show ?case
  proof (cases "cs = []")
    case True
    then show ?thesis using ij body by (simp add: iter_unfold)
  next
    case False
    have "visible (snd (iter_children body cs (set_visible ?t True w))) i =
            visible (set_visible ?t True w) i \<and>
          (\<forall>y\<in>set (fst (iter_children body cs (set_visible ?t True w))).
             visible (snd y) i = visible (set_visible ?t True w) i)"
      using body Tree.IH out by (intro iter_children_flags_outside) auto
    then show ?thesis using False ij by (simp add: iter_unfold)
  qed
qed


lemma layer_children_builds:
  assumes IH: "\<And>k (w :: 'b world) r w'. layer n k w = Some (r, w') \<Longrightarrow>
                 (\<forall>i. visible w' i \<longrightarrow> visible w i) \<and> (\<forall>t. r = Inr (Some t) \<longrightarrow> has_elements t)"
  shows "layer_children n ks (w :: 'b world) = Some (r, w') \<Longrightarrow>
         (\<forall>i. visible w' i \<longrightarrow> visible w i) \<and> (\<forall>cs. r = Inr cs \<longrightarrow> (\<forall>c\<in>set cs. has_elements c))"
proof (induction ks arbitrary: w r w')
  case Nil
  then show ?case by auto
next
  case (Cons k ks)
  from Cons.prems obtain r1 w1 where k: "layer n k w = Some (r1, w1)"
    by (auto split: option.splits)
  note k1 = IH[OF k]
  show ?case
  proof (cases r1)
    case (Inl err)
    with Cons.prems k k1 show ?thesis by auto
  next
    case (Inr sub)
    with Cons.prems k obtain r2 w2 where ks: "layer_children n ks w1 = Some (r2, w2)"
      by (auto split: option.splits)
    note k2 = Cons.IH[OF ks]
    show ?thesis
    proof (cases r2)
      case (Inl err)
      with Cons.prems k ks Inr k1 k2 show ?thesis by auto
    next
      case inr2: (Inr cs)
      with Cons.prems k ks Inr have r: "r = Inr (case sub of None \<Rightarrow> cs | Some t \<Rightarrow> t # cs)" and w: "w' = w2"
        by auto
      from k1 Inr have "\<forall>t. sub = Some t \<longrightarrow> has_elements t" by simp
      with k2 inr2 have "\<forall>c\<in>set (case sub of None \<Rightarrow> cs | Some t \<Rightarrow> t # cs). has_elements c"
        by (auto split: option.splits)
      with r w k1 k2 show ?thesis by auto
    qed
  qed
qed

lemma layer_builds:
  "layer n a (w :: 'b world) = Some (r, w') \<Longrightarrow>
     (\<forall>i. visible w' i \<longrightarrow> visible w i) \<and> (\<forall>t. r = Inr (Some t) \<longrightarrow> has_elements t)"
proof (induction n arbitrary: a w r w')
  case 0
  then show ?case by simp
next
  case (Suc n)
  have ch: "(\<forall>i. visible w0' i \<longrightarrow> visible w0 i) \<and>
            (\<forall>cs. r0 = Inr cs \<longrightarrow> (\<forall>c\<in>set cs. has_elements c))"
    if "layer_children n ks w0 = Some (r0, w0')" for ks and w0 :: "'b world" and r0 w0'
    using that by (rule layer_children_builds[rotated]) (rule Suc.IH)
  show ?case
  proof (cases "a < length (heap w) \<and> elem_get (heap w) a (inkscape ''groupmode'') = Some ''layer'' \<and>
                (\<exists>l. elem_get (heap w) a (inkscape ''label'') = Some l \<and> l \<noteq> [] \<and>
                     \<not> (hd l = CHR ''('' \<and> last l = CHR '')''))")
    case False
    with Suc.prems show ?thesis
      by (auto split: if_splits option.splits)
  next
    case True
    then obtain l where l: "elem_get (heap w) a (inkscape ''label'') = Some l" "l \<noteq> []"
      "\<not> (hd l = CHR ''('' \<and> last l = CHR '')'')" by blast
    define t where "t = fst (new_Tree (Some a) w)"
    define w2 where "w2 = set_visible t False (snd (new_Tree (Some a) w))"
    have vis2: "\<forall>i. visible w2 i \<longrightarrow> visible w i"
      by (simp add: w2_def t_def new_Tree_def)
    from Suc.prems True l obtain r3 w3 where
      c: "layer_children n (kids (heap w2 ! a)) w2 = Some (r3, w3)"
      by (auto simp: Let_def split_beta w2_def t_def split: option.splits)
    note c1 = ch[OF c]
    from Suc.prems True l c have
      res: "(r, w') = (case r3 of Inl err \<Rightarrow> (Inl err, w3)
                      | Inr cs \<Rightarrow> (Inr (Some (Tree (nid t) (Some a) None cs)), w3))"
      by (auto simp: Let_def split_beta w2_def t_def split: sum.splits)
    then have "w' = w3" by (cases r3) auto
    with c1 vis2 have v: "\<forall>i. visible w' i \<longrightarrow> visible w i" by blast
    have "\<forall>t'. r = Inr (Some t') \<longrightarrow> has_elements t'"
      using res c1 by (cases r3) auto
    with v show ?thesis by blast
  qed
qed

lemma write_children_flags:
  "write_children ser par n cs path w = Some (r, w') \<Longrightarrow> visible w' = visible w \<and> trees w' = trees w"
  by (induction cs) (auto split: if_splits option.splits simp: Let_def)


lemma leaves_nonempty: "leaves t \<noteq> []"
proof (induction t)
  case (Tree i e d cs)
  show ?case
  proof (cases cs)
    case Nil then show ?thesis by simp
  next
    case (Cons c cs')
    with Tree.IH[of c] show ?thesis by simp
  qed
qed

lemma iter_nonempty: "fst (iter_Tree body t w) \<noteq> []"
  using iter_yields[of body t w] leaves_nonempty[of t] by auto

lemma iter_root_flag:
  fixes w :: "'b world"
  assumes fresh: "nid t \<notin> (\<Union>c\<in>set (children t). nids c)"
    and body: "\<And>x (u :: 'b world). visible (body x u) = visible u"
  shows "(\<forall>y\<in>set (fst (iter_Tree body t w)). visible (snd y) (nid t)) \<and>
         \<not> visible (snd (iter_Tree body t w)) (nid t)"
proof (cases t)
  case (Tree i e d cs)
  show ?thesis
  proof (cases "cs = []")
    case True
    with Tree show ?thesis by (simp add: iter_unfold)
  next
    case False
    have "visible (snd (iter_children body cs (set_visible t True w))) i =
            visible (set_visible t True w) i \<and>
          (\<forall>y\<in>set (fst (iter_children body cs (set_visible t True w))).
             visible (snd y) i = visible (set_visible t True w) i)"
      using fresh Tree
      by (intro iter_children_flags_outside body iter_Tree_flags_outside) auto
    with False Tree show ?thesis by (simp add: iter_unfold)
  qed
qed

lemma forest_yields:
  "fst (iter_Tree skip forest w) =
     [(Tree 2 (Some 1) None [],
       set_visible (Tree 2 (Some 1) None []) True
         (set_visible (hd (children forest)) True (set_visible forest True w))),
      (Tree 3 (Some 2) None [],
       set_visible (Tree 3 (Some 2) None []) True
         (set_visible (Tree 2 (Some 1) None []) False
           (set_visible (Tree 2 (Some 1) None []) True
             (set_visible (hd (children forest)) True (set_visible forest True w)))))]"
  by (simp add: forest_def skip_def iter_unfold)

section \<open>Claims about the flags\<close>

text \<open>
  C8, as stated, says that no core operation ever sets the flag of a node without element
  to true. The walk does: it enters every node, the root of the forest and the root of
  each document's tree included, and sets its flag. In the sample forest the first yield
  finds the flags of node 0, the root of the forest, and of node 1, the root of the
  document's tree, true, and neither node has an element.
\<close>

theorem walk_shows_nodes_without_element:
  "element forest = None \<and> element (hd (children forest)) = None \<and>
   visible (snd (hd (fst (iter_Tree skip forest built)))) (nid forest) \<and>
   visible (snd (hd (fst (iter_Tree skip forest built)))) (nid (hd (children forest)))"
  by (simp add: forest_yields) (simp add: forest_def)

text \<open>
  C8, amended. For a node without element (whose identity differs from those of its
  descendants, as the identities of distinct objects do): setting its flag writes no
  style, the store stays as it is; a walk started at the node yields at least once, finds
  the node's flag true at every yield and leaves it false at the end, provided the loop
  body does not touch the flags. Writing a slide changes no flag. Building a layer tree
  with \<open>layer\<close> sets no flag to true, and every node it builds has an element.
\<close>

theorem absent_element_node:
  fixes w :: "'b world"
  assumes "element t = None"
    and "nid t \<notin> (\<Union>c\<in>set (children t). nids c)"
    and "\<And>x (u :: 'b world). visible (body x u) = visible u"
  shows "heap (set_visible t v w) = heap w \<and>
         fst (iter_Tree body t w) \<noteq> [] \<and>
         (\<forall>y\<in>set (fst (iter_Tree body t w)). visible (snd y) (nid t)) \<and>
         \<not> visible (snd (iter_Tree body t w)) (nid t) \<and>
         (\<forall>(ser :: xml \<Rightarrow> 'b) par n f path r w'.
            write_tree ser par n f path w = Some (r, w') \<longrightarrow> visible w' = visible w) \<and>
         (\<forall>n a r w'. layer n a w = Some (r, w') \<longrightarrow>
            (\<forall>i. visible w' i \<longrightarrow> visible w i) \<and> (\<forall>t'. r = Inr (Some t') \<longrightarrow> has_elements t'))"
proof -
  have 1: "heap (set_visible t v w) = heap w"
    using assms(1) by (rule heap_set_visible_None)
  have 2: "fst (iter_Tree body t w) \<noteq> []"
    by (rule iter_nonempty)
  have 3: "(\<forall>y\<in>set (fst (iter_Tree body t w)). visible (snd y) (nid t)) \<and>
           \<not> visible (snd (iter_Tree body t w)) (nid t)"
    using assms(2,3) by (rule iter_root_flag)
  have 4: "\<forall>(ser :: xml \<Rightarrow> 'b) par n f path r w'.
            write_tree ser par n f path w = Some (r, w') \<longrightarrow> visible w' = visible w"
    unfolding write_tree_def using write_children_flags by blast
  have 5: "\<forall>n a r w'. layer n a w = Some (r, w') \<longrightarrow>
            (\<forall>i. visible w' i \<longrightarrow> visible w i) \<and> (\<forall>t'. r = Inr (Some t') \<longrightarrow> has_elements t')"
    using layer_builds by blast
  from 1 2 3 4 5 show ?thesis by (intro conjI) blast+
qed

theorem absent_element_node_witness:
  "element forest = None \<and>
   heap (set_visible forest True built) = heap built \<and>
   fst (iter_Tree skip forest built) \<noteq> [] \<and>
   \<not> visible (snd (iter_Tree skip forest built)) (nid forest)"
proof -
  have e: "element forest = None" by (simp add: forest_def)
  have f: "nid forest \<notin> (\<Union>c\<in>set (children forest). nids c)" by (simp add: forest_def)
  have b: "visible (skip x u) = visible u" for x and u :: "xml world" by (simp add: skip_def)
  from absent_element_node[of forest skip True built, OF e f b] e show ?thesis by blast
qed

text \<open>
  C1 says that at each yield every layer node off the visible chain has its element's
  style set to the hidden marker. The setter writes the style only when \<open>self.element\<close>
  is true, and an element without children is false in Python. In the sample document
  layer \<open>B\<close> is empty and carries \<open>display:inline\<close>: building the tree leaves its style
  alone, and at the first yield, for layer \<open>A\<close>, node 3 of layer \<open>B\<close> is not visible while
  its element still says \<open>display:inline\<close>.
\<close>

theorem childless_layer_keeps_style:
  "layer_children 2 [1, 2] parsed = Some (Inr (children (hd (children forest))), built) \<and>
   fst (hd (fst (iter_Tree skip forest built))) = Tree 2 (Some 1) None [] \<and>
   \<not> visible (snd (hd (fst (iter_Tree skip forest built)))) 3 \<and>
   elem_get (heap (snd (hd (fst (iter_Tree skip forest built))))) 2 ''style'' = Some ''display:inline''"
proof -
  have 1: "fst (hd (fst (iter_Tree skip forest built))) = Tree 2 (Some 1) None []"
    by (simp add: forest_yields)
  have 2: "\<not> visible (snd (hd (fst (iter_Tree skip forest built)))) 3"
    by (simp add: forest_yields) (simp add: forest_def built_def)
  have 3: "elem_get (heap (snd (hd (fst (iter_Tree skip forest built))))) 2 ''style'' =
           Some ''display:inline''"
    by (simp add: forest_yields)
       (simp add: forest_def built_def set_visible_def elem_set_def elem_get_def
          layer_attrib_def inkscape_def Let_def)
  from built_by_layer 1 2 3 show ?thesis by (intro conjI)
qed

section \<open>Properties of documents in the store\<close>

subsection \<open>Depth\<close>

lemma fold_max_ge: "(m::nat) \<le> fold max xs m"
  by (induction xs arbitrary: m) (auto intro: order_trans[OF max.cobounded2])

lemma fold_max_mem: "(x::nat) \<in> set xs \<Longrightarrow> x \<le> fold max xs m"
proof (induction xs arbitrary: m)
  case Nil then show ?case by simp
next
  case (Cons y ys)
  show ?case
  proof (cases "x = y")
    case True
    have "max y m \<le> fold max ys (max y m)" by (rule fold_max_ge)
    with True show ?thesis by simp
  next
    case False
    with Cons show ?thesis by simp
  qed
qed

lemma depth_child: "c \<in> set ts \<Longrightarrow> depth (Xml t at ts) \<le> Suc n \<Longrightarrow> depth c \<le> n"
  using fold_max_mem[of "depth c" "map depth ts" 0] by simp

lemma depth_pos: "depth x \<le> n \<Longrightarrow> \<exists>m. n = Suc m"
  by (cases x; cases n) simp_all

subsection \<open>those\<close>

lemma those_map_Some:
  "list_all2 (\<lambda>k t. f k = Some t) ks ts \<Longrightarrow> those (map f ks) = Some ts"
  by (induction ks ts rule: list_all2_induct) simp_all

lemma those_map_SomeD:
  "those (map f ks) = Some ts \<Longrightarrow> list_all2 (\<lambda>k t. f k = Some t) ks ts"
  by (induction ks arbitrary: ts) (auto split: option.splits)

subsection \<open>Values held by a store\<close>

lemma repr_same_cells:
  assumes "repr h a x" and "length h \<le> length h'"
    and "\<And>b. b < length h \<Longrightarrow> h' ! b = h ! b"
  shows "repr h' a x"
  using assms(1)
proof (induction x arbitrary: a)
  case (Xml t at ts)
  then have a: "a < length h" "tag (h ! a) = t" "attrib (h ! a) = at"
    and ks: "list_all2 (repr h) (kids (h ! a)) ts" by simp_all
  have "list_all2 (repr h') (kids (h ! a)) ts"
    using ks by (rule list.rel_mono_strong) (rule Xml.IH)
  with a assms(2,3) show ?case by simp
qed

lemma repr_append: "repr h a x \<Longrightarrow> repr (h @ new) a x"
  by (erule repr_same_cells) (simp_all add: nth_append)

lemma snapshot_repr: "repr h a x \<Longrightarrow> depth x \<le> n \<Longrightarrow> snapshot n h a = Some x"
proof (induction x arbitrary: a n)
  case (Xml t at ts)
  from Xml.prems(2) obtain m where n: "n = Suc m" using depth_pos by blast
  from Xml.prems(1) have a: "a < length h" "tag (h ! a) = t" "attrib (h ! a) = at"
    and ks: "list_all2 (repr h) (kids (h ! a)) ts" by simp_all
  have "list_all2 (\<lambda>k c. snapshot m h k = Some c) (kids (h ! a)) ts"
    using ks
  proof (rule list.rel_mono_strong)
    fix k c assume "c \<in> set ts" "repr h k c"
    moreover from \<open>c \<in> set ts\<close> have "depth c \<le> m"
      using depth_child Xml.prems(2) n by blast
    ultimately show "snapshot m h k = Some c" by (rule Xml.IH)
  qed
  then have "those (map (snapshot m h) (kids (h ! a))) = Some ts" by (rule those_map_Some)
  with a n show ?case by simp
qed

lemma snapshot_reprD: "snapshot n h a = Some x \<Longrightarrow> repr h a x"
proof (induction n arbitrary: a x)
  case 0 then show ?case by simp
next
  case (Suc n)
  from Suc.prems obtain ts where a: "a < length h"
    and ts: "those (map (snapshot n h) (kids (h ! a))) = Some ts"
    and x: "x = Xml (tag (h ! a)) (attrib (h ! a)) ts"
    by (auto split: if_splits option.splits)
  from ts have "list_all2 (\<lambda>k c. snapshot n h k = Some c) (kids (h ! a)) ts"
    by (rule those_map_SomeD)
  then have "list_all2 (repr h) (kids (h ! a)) ts"
    using Suc.IH by (auto elim: list_all2_mono)
  with a x show ?case by simp
qed

lemma repr_unique: "repr h a x \<Longrightarrow> repr h a y \<Longrightarrow> x = y"
  using snapshot_repr[of h a x "max (depth x) (depth y)"] snapshot_repr[of h a y "max (depth x) (depth y)"]
  by simp

subsection \<open>Deep copies\<close>

lemma closed_fromD:
  "closed_from m h \<Longrightarrow> m \<le> b \<Longrightarrow> b < length h \<Longrightarrow> k \<in> set (kids (h ! b)) \<Longrightarrow>
   m \<le> k \<and> k < length h"
  unfolding closed_from_def by blast

lemma closed_fromI:
  "(\<And>b k. m \<le> b \<Longrightarrow> b < length h \<Longrightarrow> k \<in> set (kids (h ! b)) \<Longrightarrow> m \<le> k \<and> k < length h) \<Longrightarrow>
   closed_from m h"
  unfolding closed_from_def by blast

lemma map_st_copy_frame:
  assumes f: "\<And>a h r h'. f a h = Some (r, h') \<Longrightarrow>
     (\<exists>new. h' = h @ new) \<and> length h \<le> r \<and> r < length h' \<and> closed_from (length h) h'"
  shows "map_st f ks h = Some (rs, h') \<Longrightarrow>
     (\<exists>new. h' = h @ new) \<and> (\<forall>r\<in>set rs. length h \<le> r \<and> r < length h') \<and>
     closed_from (length h) h'"
proof (induction ks arbitrary: h rs h')
  case Nil
  then show ?case by (simp add: closed_from_def)
next
  case (Cons k ks)
  from Cons.prems obtain r h1 rs' where
    k: "f k h = Some (r, h1)" and ks: "map_st f ks h1 = Some (rs', h')" and rs: "rs = r # rs'"
    by (auto split: option.splits)
  from f[OF k] obtain new1 where h1: "h1 = h @ new1" and r: "length h \<le> r" "r < length h1"
    and c1: "closed_from (length h) h1" by blast
  from Cons.IH[OF ks] obtain new2 where h2: "h' = h1 @ new2"
    and rs': "\<forall>r\<in>set rs'. length h1 \<le> r \<and> r < length h'"
    and c2: "closed_from (length h1) h'" by blast
  have "closed_from (length h) h'"
  proof (rule closed_fromI)
    fix b k' assume b: "length h \<le> b" "b < length h'" and k': "k' \<in> set (kids (h' ! b))"
    show "length h \<le> k' \<and> k' < length h'"
    proof (cases "b < length h1")
      case True
      then have "h' ! b = h1 ! b" by (simp add: h2 nth_append)
      with k' have "k' \<in> set (kids (h1 ! b))" by simp
      from closed_fromD[OF c1 b(1) True this] show ?thesis by (simp add: h2)
    next
      case False
      then have "length h1 \<le> b" by simp
      from closed_fromD[OF c2 this b(2) k'] show ?thesis by (simp add: h1)
    qed
  qed
  moreover have "h' = h @ (new1 @ new2)" by (simp add: h1 h2)
  moreover have "\<forall>r\<in>set rs. length h \<le> r \<and> r < length h'"
  proof
    fix x assume "x \<in> set rs"
    with rs have "x = r \<or> x \<in> set rs'" by simp
    then show "length h \<le> x \<and> x < length h'"
    proof
      assume "x = r" with r show ?thesis by (simp add: h2)
    next
      assume "x \<in> set rs'"
      with rs' have "length h1 \<le> x \<and> x < length h'" by blast
      then show ?thesis by (simp add: h1)
    qed
  qed
  ultimately show ?case by blast
qed

lemma deepcopy_frame:
  "deepcopy n a h = Some (r, h') \<Longrightarrow>
     (\<exists>new. h' = h @ new) \<and> length h \<le> r \<and> r < length h' \<and> closed_from (length h) h'"
proof (induction n arbitrary: a h r h')
  case 0
  then show ?case by simp
next
  case (Suc n)
  from Suc.prems obtain ks h1 where a: "a < length h"
    and m: "map_st (deepcopy n) (kids (h ! a)) h = Some (ks, h1)"
    and r: "r = length h1" and h': "h' = h1 @ [(h ! a)\<lparr>kids := ks\<rparr>]"
    by (auto split: if_splits option.splits)
  have "(\<exists>new. h1 = h @ new) \<and> (\<forall>r\<in>set ks. length h \<le> r \<and> r < length h1) \<and>
        closed_from (length h) h1"
    using m by (rule map_st_copy_frame[rotated]) (rule Suc.IH)
  then obtain new where h1: "h1 = h @ new" and ks: "\<forall>r\<in>set ks. length h \<le> r \<and> r < length h1"
    and c: "closed_from (length h) h1" by blast
  have "closed_from (length h) h'"
  proof (rule closed_fromI)
    fix b k assume b: "length h \<le> b" "b < length h'" and k: "k \<in> set (kids (h' ! b))"
    show "length h \<le> k \<and> k < length h'"
    proof (cases "b < length h1")
      case True
      then have "h' ! b = h1 ! b" by (simp add: h' nth_append)
      with k have "k \<in> set (kids (h1 ! b))" by simp
      from closed_fromD[OF c b(1) True this] show ?thesis by (simp add: h')
    next
      case False
      with b have "b = length h1" by (simp add: h')
      then have "kids (h' ! b) = ks" by (simp add: h')
      with ks k have "length h \<le> k \<and> k < length h1" by blast
      then show ?thesis by (simp add: h')
    qed
  qed
  moreover have "h' = h @ (new @ [(h ! a)\<lparr>kids := ks\<rparr>])" by (simp add: h' h1)
  moreover have "length h \<le> r" "r < length h'" by (simp_all add: r h1 h')
  ultimately show ?case by blast
qed

lemma map_st_deepcopy_repr:
  assumes IH: "\<And>c k h. c \<in> set ts \<Longrightarrow> repr h k c \<Longrightarrow>
                 \<exists>r h'. deepcopy m k h = Some (r, h') \<and> repr h' r c"
  shows "list_all2 (repr h) ks cs \<Longrightarrow> set cs \<subseteq> set ts \<Longrightarrow>
         \<exists>rs h'. map_st (deepcopy m) ks h = Some (rs, h') \<and> list_all2 (repr h') rs cs"
proof (induction ks arbitrary: h cs)
  case Nil
  then show ?case by simp
next
  case (Cons k ks)
  from Cons.prems(1) obtain c cs' where cs: "cs = c # cs'" and kc: "repr h k c"
    and rest: "list_all2 (repr h) ks cs'"
    by (auto simp: list_all2_Cons1)
  from Cons.prems(2) cs have cin: "c \<in> set ts" and sub: "set cs' \<subseteq> set ts" by simp_all
  from IH[OF cin kc] obtain r h1 where
    k: "deepcopy m k h = Some (r, h1)" and r: "repr h1 r c" by (elim exE conjE)
  from deepcopy_frame[OF k] obtain new1 where h1: "h1 = h @ new1" by blast
  have "list_all2 (repr h1) ks cs'"
    using rest unfolding h1 by (rule list.rel_mono_strong) (rule repr_append)
  from Cons.IH[OF this sub] obtain rs h2 where
    ks: "map_st (deepcopy m) ks h1 = Some (rs, h2)" and rs: "list_all2 (repr h2) rs cs'"
    by (elim exE conjE)
  have "(\<exists>new. h2 = h1 @ new) \<and> (\<forall>r\<in>set rs. length h1 \<le> r \<and> r < length h2) \<and>
        closed_from (length h1) h2"
    using ks by (rule map_st_copy_frame[rotated]) (rule deepcopy_frame)
  then obtain new2 where "h2 = h1 @ new2" by blast
  with r have "repr h2 r c" by (simp add: repr_append)
  with k ks rs cs show ?case by simp
qed

lemma deepcopy_repr:
  "repr h a x \<Longrightarrow> depth x \<le> n \<Longrightarrow> \<exists>r h'. deepcopy n a h = Some (r, h') \<and> repr h' r x"
proof (induction x arbitrary: a n h)
  case (Xml t at ts)
  from Xml.prems(2) obtain m where n: "n = Suc m" using depth_pos by blast
  from Xml.prems(1) have a: "a < length h" "tag (h ! a) = t" "attrib (h ! a) = at"
    and ks: "list_all2 (repr h) (kids (h ! a)) ts" by simp_all
  have ih: "\<exists>r h'. deepcopy m k h0 = Some (r, h') \<and> repr h' r c"
    if "c \<in> set ts" "repr h0 k c" for c k h0
  proof -
    from that(1) Xml.prems(2) n have "depth c \<le> m" using depth_child by blast
    with that show ?thesis by (rule Xml.IH)
  qed
  have "\<exists>rs h'. map_st (deepcopy m) (kids (h ! a)) h = Some (rs, h') \<and> list_all2 (repr h') rs ts"
    using ks by (rule map_st_deepcopy_repr[rotated]) (auto intro: ih)
  then obtain rs h1 where
    m: "map_st (deepcopy m) (kids (h ! a)) h = Some (rs, h1)" and rs: "list_all2 (repr h1) rs ts"
    by (elim exE conjE)
  let ?h' = "h1 @ [(h ! a)\<lparr>kids := rs\<rparr>]"
  have "list_all2 (repr ?h') rs ts"
    using rs by (rule list.rel_mono_strong) (rule repr_append)
  then have "repr ?h' (length h1) (Xml t at ts)" using a by simp
  moreover have "deepcopy n a h = Some (length h1, ?h')" using a m n by simp
  ultimately show ?case by blast
qed

subsection \<open>Traversal\<close>

lemma edges_complete:
  "edges n h a = Some es \<Longrightarrow>
     \<forall>p\<in>insert a (snd ` set es). \<forall>k\<in>set (kids (h ! p)). (p, k) \<in> set es"
  "edges_from n h q ks = Some es \<Longrightarrow>
     (\<forall>k\<in>set ks. (q, k) \<in> set es) \<and>
     (\<forall>p\<in>snd ` set es. \<forall>k\<in>set (kids (h ! p)). (p, k) \<in> set es)"
proof (induction n h a and n h q ks arbitrary: es and es rule: edges_edges_from.induct)
  case (1 h a)
  then show ?case by simp
next
  case (2 n h a)
  from "2.prems" have a: "a < length h" and e: "edges_from n h a (kids (h ! a)) = Some es"
    by (auto split: if_splits)
  from "2.IH"[OF a e] show ?case by blast
next
  case (3 n h parent)
  then show ?case by simp
next
  case (4 n h parent k ks)
  from "4.prems" obtain below rest where b: "edges n h k = Some below"
    and r: "edges_from n h parent ks = Some rest" and es: "es = (parent, k) # below @ rest"
    by (auto split: option.splits)
  note ihb = "4.IH"(1)[OF b]
  note ihr = "4.IH"(2)[OF b r]
  show ?case
  proof (intro conjI ballI)
    fix k' assume "k' \<in> set (k # ks)"
    with ihr show "(parent, k') \<in> set es" by (auto simp: es)
  next
    fix p k' assume p: "p \<in> snd ` set es" and k': "k' \<in> set (kids (h ! p))"
    from p have "p = k \<or> p \<in> snd ` set below \<or> p \<in> snd ` set rest"
      by (auto simp: es)
    then show "(p, k') \<in> set es"
    proof (elim disjE)
      assume "p = k" with ihb k' show ?thesis by (auto simp: es)
    next
      assume "p \<in> snd ` set below" with ihb k' show ?thesis by (auto simp: es)
    next
      assume "p \<in> snd ` set rest" with ihr k' show ?thesis by (auto simp: es)
    qed
  qed
qed

lemma edges_above:
  "edges n h a = Some es \<Longrightarrow> closed_from m h \<Longrightarrow> m \<le> a \<Longrightarrow>
     \<forall>e\<in>set es. m \<le> fst e \<and> fst e < length h"
  "edges_from n h q ks = Some es \<Longrightarrow> closed_from m h \<Longrightarrow> m \<le> q \<Longrightarrow> q < length h \<Longrightarrow>
     set ks \<subseteq> set (kids (h ! q)) \<Longrightarrow>
     \<forall>e\<in>set es. m \<le> fst e \<and> fst e < length h"
proof (induction n h a and n h q ks arbitrary: es and es rule: edges_edges_from.induct)
  case (1 h a)
  then show ?case by simp
next
  case (2 n h a)
  from "2.prems" have a: "a < length h" and e: "edges_from n h a (kids (h ! a)) = Some es"
    by (auto split: if_splits)
  from "2.IH"[OF a e "2.prems"(2,3) a] show ?case by simp
next
  case (3 n h parent)
  then show ?case by simp
next
  case (4 n h parent k ks)
  from "4.prems" obtain below rest where b: "edges n h k = Some below"
    and r: "edges_from n h parent ks = Some rest" and es: "es = (parent, k) # below @ rest"
    by (auto split: option.splits)
  from "4.prems"(5) have kin: "k \<in> set (kids (h ! parent))" and sub: "set ks \<subseteq> set (kids (h ! parent))"
    by simp_all
  from closed_fromD[OF "4.prems"(2,3,4) kin] have mk: "m \<le> k" by simp
  note ihb = "4.IH"(1)[OF b "4.prems"(2) mk]
  note ihr = "4.IH"(2)[OF b r "4.prems"(2,3,4) sub]
  from ihb ihr "4.prems"(3,4) show ?case by (auto simp: es)
qed

lemma edges_from_total:
  assumes IH: "\<And>c k. c \<in> set ts \<Longrightarrow> repr h k c \<Longrightarrow> \<exists>es. edges m h k = Some es"
  shows "list_all2 (repr h) ks cs \<Longrightarrow> set cs \<subseteq> set ts \<Longrightarrow> \<exists>es. edges_from m h q ks = Some es"
proof (induction ks arbitrary: cs)
  case Nil
  then show ?case by simp
next
  case (Cons k ks)
  from Cons.prems(1) obtain c cs' where cs: "cs = c # cs'" and kc: "repr h k c"
    and rest: "list_all2 (repr h) ks cs'"
    by (auto simp: list_all2_Cons1)
  from Cons.prems(2) cs have cin: "c \<in> set ts" and sub: "set cs' \<subseteq> set ts" by simp_all
  from IH[OF cin kc] obtain below where b: "edges m h k = Some below" by blast
  from Cons.IH[OF rest sub] obtain es where "edges_from m h q ks = Some es" by blast
  with b show ?case by simp
qed

lemma edges_total: "repr h a x \<Longrightarrow> depth x \<le> n \<Longrightarrow> \<exists>es. edges n h a = Some es"
proof (induction x arbitrary: a n)
  case (Xml t at ts)
  from Xml.prems(2) obtain m where n: "n = Suc m" using depth_pos by blast
  from Xml.prems(1) have a: "a < length h"
    and ks: "list_all2 (repr h) (kids (h ! a)) ts" by simp_all
  have ih: "\<exists>es. edges m h k = Some es" if "c \<in> set ts" "repr h k c" for c k
  proof -
    from that(1) Xml.prems(2) n have "depth c \<le> m" using depth_child by blast
    with that show ?thesis by (rule Xml.IH)
  qed
  have "\<exists>es. edges_from m h a (kids (h ! a)) = Some es"
    using ks by (rule edges_from_total[rotated]) (auto intro: ih)
  with a n show ?case by simp
qed


subsection \<open>Pruning, cell by cell\<close>

lemma fold_remove1_filter:
  "\<forall>x\<in>set pre. \<not> P x \<Longrightarrow>
   fold remove1 (filter P xs) (pre @ xs) = pre @ filter (\<lambda>x. \<not> P x) xs"
proof (induction xs arbitrary: pre)
  case Nil
  then show ?case by simp
next
  case (Cons x xs)
  show ?case
  proof (cases "P x")
    case True
    with Cons.prems have "x \<notin> set pre" by blast
    then have "remove1 x (pre @ x # xs) = pre @ xs" by (simp add: remove1_append)
    with True Cons.IH[OF Cons.prems] show ?thesis by simp
  next
    case False
    with Cons.prems have "\<forall>y\<in>set (pre @ [x]). \<not> P y" by simp
    from Cons.IH[OF this] False show ?thesis by simp
  qed
qed

lemma hidden_kids_update [simp]: "hidden (h[p := (h ! p)\<lparr>kids := ks\<rparr>]) a = hidden h a"
proof (cases "p < length h")
  case True
  then show ?thesis by (cases "a = p") (simp_all add: hidden_def elem_get_def)
next
  case False
  then have "h[p := (h ! p)\<lparr>kids := ks\<rparr>] = h" by (simp add: list_update_beyond)
  then show ?thesis by simp
qed

lemma fold_remove_child:
  "p < length h \<Longrightarrow>
   fold (remove_child p) ns h = h[p := (h ! p)\<lparr>kids := fold remove1 ns (kids (h ! p))\<rparr>]"
proof (induction ns arbitrary: h)
  case Nil
  then show ?case by (simp add: list_update_same_conv)
next
  case (Cons n ns)
  have "p < length (remove_child p n h)" using Cons.prems by (simp add: remove_child_def)
  from Cons.IH[OF this] Cons.prems show ?case by (simp add: remove_child_def)
qed

lemma prune_parent_cell: "p < length h \<Longrightarrow> prune_parent p h = h[p := pruned_at h p]"
  using fold_remove1_filter[of "[]" "hidden h" "kids (h ! p)"]
  by (simp add: prune_parent_def findall_hidden_children_def fold_remove_child pruned_at_def)

lemma pruned_at_update:
  "p < length h \<Longrightarrow>
   pruned_at (h[p := pruned_at h p]) a = (if a = p then pruned_at h p else pruned_at h a)"
proof -
  assume p: "p < length h"
  have hid: "hidden (h[p := pruned_at h p]) = hidden h"
    by (rule ext) (simp add: pruned_at_def)
  show ?thesis using p by (simp add: pruned_at_def[of "h[p := pruned_at h p]"] hid) (simp add: pruned_at_def)
qed

lemma fold_prune_parent:
  "\<forall>p\<in>set ps. p < length h \<Longrightarrow>
   length (fold prune_parent ps h) = length h \<and>
   (\<forall>a<length h. fold prune_parent ps h ! a = (if a \<in> set ps then pruned_at h a else h ! a))"
proof (induction ps arbitrary: h)
  case Nil
  then show ?case by simp
next
  case (Cons p ps)
  from Cons.prems have p: "p < length h" by simp
  let ?h1 = "h[p := pruned_at h p]"
  have h1: "prune_parent p h = ?h1" using p by (rule prune_parent_cell)
  have "\<forall>q\<in>set ps. q < length ?h1" using Cons.prems by simp
  from Cons.IH[OF this] have len: "length (fold prune_parent ps ?h1) = length h"
    and cells: "\<forall>a<length h. fold prune_parent ps ?h1 ! a =
                  (if a \<in> set ps then pruned_at ?h1 a else ?h1 ! a)"
    by simp_all
  have "fold prune_parent (p # ps) h ! a = (if a \<in> set (p # ps) then pruned_at h a else h ! a)"
    if "a < length h" for a
    using cells that p by (simp add: h1 pruned_at_update)
  with len show ?case by (simp add: h1)
qed


subsection \<open>Pruning a document\<close>

lemma edges_parents:
  "edges n h a = Some es \<Longrightarrow> \<forall>e\<in>set es. fst e < length h"
  "edges_from n h q ks = Some es \<Longrightarrow> q < length h \<Longrightarrow> \<forall>e\<in>set es. fst e < length h"
proof (induction n h a and n h q ks arbitrary: es and es rule: edges_edges_from.induct)
  case (1 h a)
  then show ?case by simp
next
  case (2 n h a)
  from "2.prems" have a: "a < length h" and e: "edges_from n h a (kids (h ! a)) = Some es"
    by (auto split: if_splits)
  from "2.IH"[OF a e a] show ?case .
next
  case (3 n h parent)
  then show ?case by simp
next
  case (4 n h parent k ks)
  from "4.prems" obtain below rest where b: "edges n h k = Some below"
    and r: "edges_from n h parent ks = Some rest" and es: "es = (parent, k) # below @ rest"
    by (auto split: option.splits)
  from "4.IH"(1)[OF b] "4.IH"(2)[OF b r "4.prems"(2)] "4.prems"(2) show ?case
    by (auto simp: es)
qed

lemma set_first_occurrences [simp]: "set (first_occurrences xs) = set xs"
  by (simp add: first_occurrences_def)

lemma prune_cells:
  assumes es: "edges n h root = Some es" and pr: "prune n root h = Some h'"
  shows "length h' = length h"
    and "\<forall>a\<in>insert root (snd ` set es). a < length h \<longrightarrow> h' ! a = pruned_at h a"
    and "\<forall>a<length h. a \<notin> fst ` set es \<longrightarrow> h' ! a = h ! a"
proof -
  define ps where "ps = first_occurrences (map fst (filter (\<lambda>(p, k). hidden h k) es))"
  have h': "h' = fold prune_parent ps h"
    using es pr by (simp add: prune_def findall_hidden_parents_def ps_def)
  have ps: "set ps = {p. \<exists>k. (p, k) \<in> set es \<and> hidden h k}"
    by (auto simp: ps_def image_iff)
  have "\<forall>p\<in>set ps. p < length h"
    using edges_parents(1)[OF es] ps by auto
  from fold_prune_parent[OF this] have len: "length h' = length h"
    and cells: "\<forall>a<length h. h' ! a = (if a \<in> set ps then pruned_at h a else h ! a)"
    by (simp_all add: h')
  show "length h' = length h" by (rule len)
  show "\<forall>a\<in>insert root (snd ` set es). a < length h \<longrightarrow> h' ! a = pruned_at h a"
  proof (intro ballI impI)
    fix a assume a: "a \<in> insert root (snd ` set es)" and al: "a < length h"
    show "h' ! a = pruned_at h a"
    proof (cases "a \<in> set ps")
      case True
      with cells al show ?thesis by simp
    next
      case False
      have "\<not> hidden h k" if "k \<in> set (kids (h ! a))" for k
      proof -
        from edges_complete(1)[OF es] a that have "(a, k) \<in> set es" by blast
        with False ps show ?thesis by blast
      qed
      then have "filter (\<lambda>k. \<not> hidden h k) (kids (h ! a)) = kids (h ! a)"
        by (simp add: filter_id_conv)
      then have "pruned_at h a = h ! a" by (simp add: pruned_at_def)
      with cells al False show ?thesis by simp
    qed
  qed
  show "\<forall>a<length h. a \<notin> fst ` set es \<longrightarrow> h' ! a = h ! a"
  proof (intro allI impI)
    fix a assume "a < length h" "a \<notin> fst ` set es"
    moreover from this(2) ps have "a \<notin> set ps" by force
    ultimately show "h' ! a = h ! a" using cells by simp
  qed
qed

lemma list_all2_filter:
  assumes "list_all2 R xs ys"
    and "\<And>x y. x \<in> set xs \<Longrightarrow> y \<in> set ys \<Longrightarrow> R x y \<Longrightarrow> P x = Q y"
  shows "list_all2 R (filter P xs) (filter Q ys)"
  using assms by (induction xs ys rule: list_all2_induct) auto

lemma hidden_repr: "repr h k c \<Longrightarrow> hidden h k = hidden_xml c"
  by (cases c) (simp add: hidden_def hidden_xml_def elem_get_def)

lemma repr_pruned:
  assumes len: "length h' = length h"
    and cells: "\<And>b. b \<in> R \<Longrightarrow> b < length h \<Longrightarrow> h' ! b = pruned_at h b"
    and closed: "\<And>b k. b \<in> R \<Longrightarrow> k \<in> set (kids (h ! b)) \<Longrightarrow> k \<in> R"
  shows "repr h a x \<Longrightarrow> a \<in> R \<Longrightarrow> repr h' a (prune_xml x)"
proof (induction x arbitrary: a)
  case (Xml t at ts)
  from Xml.prems(1) have a: "a < length h" "tag (h ! a) = t" "attrib (h ! a) = at"
    and ks: "list_all2 (repr h) (kids (h ! a)) ts" by simp_all
  have cell: "h' ! a = pruned_at h a" using cells Xml.prems(2) a(1) by blast
  have "list_all2 (repr h) (filter (\<lambda>k. \<not> hidden h k) (kids (h ! a)))
          (filter (\<lambda>c. \<not> hidden_xml c) ts)"
    using ks by (rule list_all2_filter) (simp add: hidden_repr)
  then have "list_all2 (\<lambda>k c. repr h' k (prune_xml c)) (filter (\<lambda>k. \<not> hidden h k) (kids (h ! a)))
          (filter (\<lambda>c. \<not> hidden_xml c) ts)"
  proof (rule list.rel_mono_strong)
    fix k c assume k: "k \<in> set (filter (\<lambda>k. \<not> hidden h k) (kids (h ! a)))"
      and c: "c \<in> set (filter (\<lambda>c. \<not> hidden_xml c) ts)" and r: "repr h k c"
    from k have "k \<in> set (kids (h ! a))" by simp
    with closed Xml.prems(2) have "k \<in> R" by blast
    moreover from c have "c \<in> set ts" by simp
    ultimately show "repr h' k (prune_xml c)" using r Xml.IH by blast
  qed
  then have "list_all2 (repr h') (kids (h' ! a)) (map prune_xml (filter (\<lambda>c. \<not> hidden_xml c) ts))"
    by (simp add: cell pruned_at_def list_all2_map2)
  with a len cell show ?case by (simp add: pruned_at_def)
qed

lemma prune_repr:
  assumes "repr h root x" and "depth x \<le> n"
  shows "\<exists>h'. prune n root h = Some h' \<and> repr h' root (prune_xml x) \<and> length h' = length h"
proof -
  from edges_total[OF assms] obtain es where es: "edges n h root = Some es" by blast
  then obtain h' where pr: "prune n root h = Some h'"
    by (simp add: prune_def findall_hidden_parents_def)
  note c = prune_cells[OF es pr]
  have "repr h' root (prune_xml x)"
  proof (rule repr_pruned[where R = "insert root (snd ` set es)" and h = h])
    show "length h' = length h" by (rule c(1))
    show "h' ! b = pruned_at h b" if "b \<in> insert root (snd ` set es)" "b < length h" for b
      using c(2) that by blast
    show "k \<in> insert root (snd ` set es)"
      if "b \<in> insert root (snd ` set es)" "k \<in> set (kids (h ! b))" for b k
    proof -
      from edges_complete(1)[OF es] that have "(b, k) \<in> set es" by blast
      then show ?thesis by force
    qed
    show "repr h root x" by (rule assms(1))
    show "root \<in> insert root (snd ` set es)" by simp
  qed
  with pr c(1) show ?thesis by blast
qed

lemma prune_frame:
  assumes pr: "prune n root h = Some h'" and cl: "closed_from m h" and m: "m \<le> root"
  shows "length h' = length h \<and> (\<forall>b<m. b < length h \<longrightarrow> h' ! b = h ! b)"
proof -
  from pr obtain es where es: "edges n h root = Some es"
    by (auto simp: prune_def findall_hidden_parents_def)
  note c = prune_cells[OF es pr]
  have "h' ! b = h ! b" if "b < m" "b < length h" for b
  proof -
    from edges_above(1)[OF es cl m] that(1) have "b \<notin> fst ` set es" by force
    with c(3) that(2) show ?thesis by blast
  qed
  with c(1) show ?thesis by blast
qed

subsection \<open>Writing\<close>

lemma depth_prune_xml: "depth (prune_xml x) \<le> depth x"
proof (induction x)
  case (Xml t at ts)
  have "fold max (map depth (map prune_xml (filter (\<lambda>c. \<not> hidden_xml c) ts))) 0
          \<le> fold max (map depth ts) 0"
  proof (cases "map prune_xml (filter (\<lambda>c. \<not> hidden_xml c) ts)")
    case Nil
    then show ?thesis by simp
  next
    case (Cons y ys)
    define zs where "zs = map depth (map prune_xml (filter (\<lambda>c. \<not> hidden_xml c) ts))"
    have "fold max zs 0 \<le> b" if "\<forall>z\<in>set zs. z \<le> b" for b :: nat
      using that
    proof (induction zs arbitrary: b rule: rev_induct)
      case Nil
      then show ?case by simp
    next
      case (snoc z zs)
      then show ?case by simp
    qed
    moreover have "\<forall>z\<in>set zs. z \<le> fold max (map depth ts) 0"
    proof
      fix z assume "z \<in> set zs"
      then obtain c where c: "c \<in> set ts" and z: "z = depth (prune_xml c)"
        by (auto simp: zs_def)
      from Xml.IH[OF c] have "z \<le> depth c" by (simp add: z)
      also have "depth c \<le> fold max (map depth ts) 0" using c by (intro fold_max_mem) simp
      finally show "z \<le> fold max (map depth ts) 0" .
    qed
    ultimately show ?thesis by (simp add: zs_def)
  qed
  then show ?case by simp
qed


lemma copy_then_prune_frame:
  assumes d: "deepcopy n a h = Some (root, h1)" and p: "prune n root h1 = Some h2"
  shows "take (length h) h2 = h"
proof -
  from deepcopy_frame[OF d] obtain new where h1: "h1 = h @ new" and r: "length h \<le> root"
    and cl: "closed_from (length h) h1" by blast
  from prune_frame[OF p cl r] have len: "length h2 = length h1"
    and same: "\<forall>b<length h. b < length h1 \<longrightarrow> h2 ! b = h1 ! b" by simp_all
  show ?thesis
  proof (rule nth_equalityI)
    show "length (take (length h) h2) = length h" by (simp add: len h1)
    fix i assume "i < length (take (length h) h2)"
    then have i: "i < length h" by simp
    with same have "h2 ! i = h1 ! i" by (simp add: h1)
    with i show "take (length h) h2 ! i = h ! i" by (simp add: h1 nth_append)
  qed
qed

lemma write_children_skip:
  "\<not> visible w (nid c) \<or> tree c = None \<Longrightarrow>
   write_children ser par n (c # cs) path w = write_children ser par n cs path w"
  by (cases "tree c") auto

lemma write_children_frame:
  "write_children ser par n cs path w = Some (r, w') \<Longrightarrow>
   take (length (heap w)) (heap w') = heap w \<and> visible w' = visible w \<and> trees w' = trees w"
proof (induction cs)
  case Nil
  then show ?case by simp
next
  case (Cons c cs)
  show ?case
  proof (cases "\<not> visible w (nid c) \<or> tree c = None")
    case True
    from Cons.prems Cons.IH show ?thesis by (simp only: write_children_skip[OF True])
  next
    case False
    then obtain a where vis: "visible w (nid c)" and tr: "tree c = Some a" by auto
    with Cons.prems obtain root h1 h2 doc where
      d: "deepcopy n a (heap w) = Some (root, h1)" and
      p: "prune n root h1 = Some h2" and s: "snapshot n h2 root = Some doc"
      by (auto split: option.splits)
    from copy_then_prune_frame[OF d p] have "take (length (heap w)) h2 = heap w" .
    moreover from Cons.prems vis tr d p s have
      "heap w' = h2 \<and> visible w' = visible w \<and> trees w' = trees w"
      by (auto simp: Let_def split: option.splits if_splits)
    ultimately show ?thesis by simp
  qed
qed

lemma write_child_shown:
  assumes vis: "visible w (nid c)" and tr: "tree c = Some a"
    and doc: "repr (heap w) a x" "depth x \<le> n"
  shows "\<exists>h2. take (length (heap w)) h2 = heap w \<and>
     write_children ser par n (c # rest) path w =
       Some (if slot_unreadable par (files w path) then Inl ParseError
             else Inr (\<not> slot_matches ser par (prune_xml x) (files w path)),
             w\<lparr>heap := h2,
               files := (if slot_unreadable par (files w path) \<or>
                            slot_matches ser par (prune_xml x) (files w path)
                         then files w else (files w)(path \<mapsto> ser (prune_xml x)))\<rparr>)"
proof -
  from deepcopy_repr[OF doc] obtain root h1 where
    d: "deepcopy n a (heap w) = Some (root, h1)" and r1: "repr h1 root x" by (elim exE conjE)
  from prune_repr[OF r1 doc(2)] obtain h2 where
    p: "prune n root h1 = Some h2" and r2: "repr h2 root (prune_xml x)" by (elim exE conjE)
  have "depth (prune_xml x) \<le> n" using depth_prune_xml[of x] doc(2) by simp
  with r2 have s: "snapshot n h2 root = Some (prune_xml x)" by (rule snapshot_repr)
  have fr: "take (length (heap w)) h2 = heap w" using d p by (rule copy_then_prune_frame)
  have "write_children ser par n (c # rest) path w =
       Some (if slot_unreadable par (files w path) then Inl ParseError
             else Inr (\<not> slot_matches ser par (prune_xml x) (files w path)),
             w\<lparr>heap := h2,
               files := (if slot_unreadable par (files w path) \<or>
                            slot_matches ser par (prune_xml x) (files w path)
                         then files w else (files w)(path \<mapsto> ser (prune_xml x)))\<rparr>)"
    using vis tr d p s
    by (simp add: slot_unreadable_def slot_matches_def Let_def split: option.splits)
  with fr show ?thesis by blast
qed

lemma write_children_none_shown:
  "find (\<lambda>c. visible w (nid c) \<and> tree c \<noteq> None) cs = None \<Longrightarrow>
   write_children ser par n cs path w = Some (Inr False, w)"
proof (induction cs)
  case Nil
  then show ?case by simp
next
  case (Cons c cs)
  from Cons.prems have skip: "\<not> visible w (nid c) \<or> tree c = None"
    and rest: "find (\<lambda>c. visible w (nid c) \<and> tree c \<noteq> None) cs = None"
    by (auto split: if_splits)
  from Cons.IH[OF rest] show ?case by (simp only: write_children_skip[OF skip])
qed

lemma write_children_find:
  "find (\<lambda>c. visible w (nid c) \<and> tree c \<noteq> None) cs = Some c \<Longrightarrow>
   visible w (nid c) \<and> tree c \<noteq> None \<and>
   (\<exists>rest. write_children ser par n cs path w = write_children ser par n (c # rest) path w)"
proof (induction cs)
  case Nil
  then show ?case by simp
next
  case (Cons d cs)
  show ?case
  proof (cases "\<not> visible w (nid d) \<or> tree d = None")
    case False
    with Cons.prems have "d = c" by auto
    with False show ?thesis by blast
  next
    case True
    with Cons.prems have "find (\<lambda>c. visible w (nid c) \<and> tree c \<noteq> None) cs = Some c"
      by (auto split: if_splits)
    from Cons.IH[OF this] show ?thesis unfolding write_children_skip[OF True] .
  qed
qed

subsection \<open>What \<open>write\<close> returns\<close>

lemma shown_children:
  "shown self w = Some c \<Longrightarrow> c \<in> set (children self) \<and> visible w (nid c) \<and> tree c \<noteq> None"
  unfolding shown_def by (auto simp: find_Some_iff)

lemma write_tree_none_shown:
  "shown self w = None \<Longrightarrow> write_tree ser par n self path w = Some (Inr False, w)"
  unfolding shown_def write_tree_def by (rule write_children_none_shown)

lemma write_tree_shown:
  assumes sh: "shown self w = Some c" and tr: "tree c = Some a"
    and doc: "repr (heap w) a x" "depth x \<le> n"
  shows "\<exists>h2. take (length (heap w)) h2 = heap w \<and>
     write_tree ser par n self path w =
       Some (if slot_unreadable par (files w path) then Inl ParseError
             else Inr (\<not> slot_matches ser par (prune_xml x) (files w path)),
             w\<lparr>heap := h2,
               files := (if slot_unreadable par (files w path) \<or>
                            slot_matches ser par (prune_xml x) (files w path)
                         then files w else (files w)(path \<mapsto> ser (prune_xml x)))\<rparr>)"
proof -
  from sh have f: "find (\<lambda>c. visible w (nid c) \<and> tree c \<noteq> None) (children self) = Some c"
    by (simp add: shown_def)
  from write_children_find[OF f, of ser par n path] obtain rest where
    vis: "visible w (nid c)" and
    eq: "write_children ser par n (children self) path w =
         write_children ser par n (c # rest) path w" by blast
  from write_child_shown[OF vis tr doc, of ser par rest path] show ?thesis
    unfolding write_tree_def eq .
qed

lemma write_tree_frame:
  "write_tree ser par n self path w = Some (r, w') \<Longrightarrow>
   take (length (heap w)) (heap w') = heap w \<and> visible w' = visible w \<and> trees w' = trees w"
  unfolding write_tree_def by (rule write_children_frame)

lemma write_tree_total:
  assumes "\<forall>c\<in>set (children self). \<forall>a. tree c = Some a \<longrightarrow> (\<exists>x. repr (heap w) a x \<and> depth x \<le> n)"
  shows "\<exists>r w'. write_tree ser par n self path w = Some (r, w')"
proof (cases "shown self w")
  case None
  then show ?thesis by (simp add: write_tree_none_shown)
next
  case (Some c)
  from shown_children[OF Some] obtain a where c: "c \<in> set (children self)" and tr: "tree c = Some a"
    by auto
  with assms obtain x where "repr (heap w) a x" "depth x \<le> n" by blast
  from write_tree_shown[OF Some tr this, of ser par path] show ?thesis by blast
qed

lemma hidden_root_shown: "shown hidden_root_forest hidden_root = Some (Tree 1 None (Some 0) [])"
  by (simp add: shown_def hidden_root_forest_def hidden_root_def)

lemma hidden_root_repr: "repr (heap hidden_root) 0 hidden_root_doc"
  by (simp add: hidden_root_def hidden_root_doc_def)

lemma hidden_root_depth: "depth hidden_root_doc \<le> 3"
  by (simp add: hidden_root_doc_def)

lemma hidden_root_pruned:
  "prune_xml hidden_root_doc = Xml ''svg'' [(''style'', ''display:none'')] [Xml ''rect'' [] []]"
  by (simp add: hidden_root_doc_def hidden_xml_def)

section \<open>Claims about writing a slide\<close>

text \<open>
  C10. \<open>write\<close> leaves the forest and its documents in memory as they are. Whenever
  the documents of the children of \<open>self\<close> are held by the store, with a depth that the
  bound covers, \<open>write\<close> returns (a result or an error of the parser), and whatever it
  returns, under any bound, every cell that the store had before the call is the same
  after it (tag, attributes, so the style too, and children), every flag is the same and
  no \<open>Tree\<close> object was created: the copy and the pruning are in cells appended to the
  store.
\<close>

theorem write_leaves_memory:
  fixes w :: "'b world"
  assumes "\<forall>c\<in>set (children self). \<forall>a. tree c = Some a \<longrightarrow> (\<exists>x. repr (heap w) a x \<and> depth x \<le> n)"
  shows "(\<exists>r w'. write_tree ser par n self path w = Some (r, w')) \<and>
         (\<forall>m r w'. write_tree ser par m self path w = Some (r, w') \<longrightarrow>
            take (length (heap w)) (heap w') = heap w \<and> visible w' = visible w \<and>
            trees w' = trees w)"
  using write_tree_total[OF assms] write_tree_frame by blast

theorem write_leaves_memory_witness:
  "repr (heap hidden_root) 0 hidden_root_doc \<and> depth hidden_root_doc \<le> 3 \<and>
   (\<exists>r w'. write_tree ideal_ser ideal_par 3 hidden_root_forest ''0.svg'' hidden_root = Some (r, w') \<and>
      take 4 (heap w') = heap hidden_root \<and> visible w' = visible hidden_root \<and> trees w' = 2)"
proof -
  have h: "\<forall>c\<in>set (children hidden_root_forest). \<forall>a. tree c = Some a \<longrightarrow>
             (\<exists>x. repr (heap hidden_root) a x \<and> depth x \<le> 3)"
    using hidden_root_repr hidden_root_depth by (auto simp: hidden_root_forest_def)
  have l: "length (heap hidden_root) = 4" "trees hidden_root = 2" by (simp_all add: hidden_root_def)
  from write_leaves_memory[OF h, of ideal_ser ideal_par "''0.svg''"] l
  have "\<exists>r w'. write_tree ideal_ser ideal_par 3 hidden_root_forest ''0.svg'' hidden_root = Some (r, w') \<and>
      take 4 (heap w') = heap hidden_root \<and> visible w' = visible hidden_root \<and> trees w' = 2"
    by metis
  with hidden_root_repr hidden_root_depth show ?thesis by blast
qed

text \<open>
  C6, as stated, has every element with the hidden marker as its own style removed from
  the filtered copy. The root element of the document is never removed: the search
  \<open>.//*[@style='display:none']..\<close> looks below the root and \<open>remove\<close> takes a child out of
  its parent. In \<open>hidden_root\<close> the root element carries the marker, and the slide written
  for it still has the root, marker included, with its first child; the second child,
  which carries the marker too, is gone.
\<close>

theorem marked_root_stays:
  "hidden (heap hidden_root) 0 \<and> shown hidden_root_forest hidden_root = Some (Tree 1 None (Some 0) []) \<and>
   map_option fst (write_tree ideal_ser ideal_par 3 hidden_root_forest ''0.svg'' hidden_root) =
     Some (Inr True) \<and>
   files (snd (the (write_tree ideal_ser ideal_par 3 hidden_root_forest ''0.svg'' hidden_root))) ''0.svg'' =
     Some (Xml ''svg'' [(''style'', ''display:none'')] [Xml ''rect'' [] []])"
proof -
  have 1: "hidden (heap hidden_root) 0" by (simp add: hidden_def elem_get_def hidden_root_def)
  have s: "files hidden_root ''0.svg'' = None" by (simp add: hidden_root_def)
  from write_tree_shown[OF hidden_root_shown _ hidden_root_repr hidden_root_depth,
      of ideal_ser ideal_par "''0.svg''"] s
  show ?thesis using 1 hidden_root_shown
    by (auto simp: slot_unreadable_def slot_matches_def hidden_root_pruned ideal_ser_def)
qed

text \<open>
  C6, amended: the root element of the document always stays; below it, an element is
  removed exactly when its own style is the hidden marker or an element above it, the
  root apart, was removed. For the child of \<open>self\<close> that \<open>write\<close> takes, whose document has
  the value \<open>x\<close>: the deep copy, pruned by the two loops, has the value \<open>prune_xml x\<close>,
  which keeps the top element, drops the children that carry the marker with all that is
  below them, keeps every other child whatever its ancestors carry, and goes on in the
  same way below the children kept. When the cache slot is empty this is the document
  that \<open>write\<close> puts there.
\<close>

theorem filtered_copy_prunes_marked:
  fixes w :: "'b world"
  assumes "shown self w = Some c" and "tree c = Some a"
    and "repr (heap w) a x" and "depth x \<le> n"
  shows "(\<exists>root h1 h2. deepcopy n a (heap w) = Some (root, h1) \<and> prune n root h1 = Some h2 \<and>
            snapshot n h2 root = Some (prune_xml x)) \<and>
         (files w path = None \<longrightarrow>
            (\<exists>w'. write_tree ser par n self path w = Some (Inr True, w') \<and>
                  files w' = (files w)(path \<mapsto> ser (prune_xml x))))"
proof -
  from deepcopy_repr[OF assms(3,4)] obtain root h1 where
    d: "deepcopy n a (heap w) = Some (root, h1)" and r1: "repr h1 root x" by (elim exE conjE)
  from prune_repr[OF r1 assms(4)] obtain h2 where
    p: "prune n root h1 = Some h2" and r2: "repr h2 root (prune_xml x)" by (elim exE conjE)
  have "depth (prune_xml x) \<le> n" using depth_prune_xml[of x] assms(4) by simp
  with r2 have s: "snapshot n h2 root = Some (prune_xml x)" by (rule snapshot_repr)
  from d p s have A: "\<exists>root h1 h2. deepcopy n a (heap w) = Some (root, h1) \<and>
      prune n root h1 = Some h2 \<and> snapshot n h2 root = Some (prune_xml x)" by blast
  have B: "\<exists>w'. write_tree ser par n self path w = Some (Inr True, w') \<and>
                  files w' = (files w)(path \<mapsto> ser (prune_xml x))" if "files w path = None"
    using write_tree_shown[OF assms, of ser par path] that
    by (auto simp: slot_unreadable_def slot_matches_def)
  from A B show ?thesis by blast
qed

theorem filtered_copy_prunes_marked_witness:
  "shown hidden_root_forest hidden_root = Some (Tree 1 None (Some 0) []) \<and>
   repr (heap hidden_root) 0 hidden_root_doc \<and> depth hidden_root_doc \<le> 3 \<and>
   files hidden_root ''0.svg'' = None \<and>
   (\<exists>w'. write_tree ideal_ser ideal_par 3 hidden_root_forest ''0.svg'' hidden_root = Some (Inr True, w') \<and>
         files w' ''0.svg'' = Some (Xml ''svg'' [(''style'', ''display:none'')] [Xml ''rect'' [] []]))"
proof -
  have s: "files hidden_root ''0.svg'' = None" by (simp add: hidden_root_def)
  from filtered_copy_prunes_marked[OF hidden_root_shown _ hidden_root_repr hidden_root_depth,
      where ser = ideal_ser and par = ideal_par and path = "''0.svg''"] s
  have "\<exists>w'. write_tree ideal_ser ideal_par 3 hidden_root_forest ''0.svg'' hidden_root = Some (Inr True, w') \<and>
         files w' ''0.svg'' = Some (Xml ''svg'' [(''style'', ''display:none'')] [Xml ''rect'' [] []])"
    by (auto simp: hidden_root_pruned ideal_ser_def)
  with hidden_root_shown hidden_root_repr hidden_root_depth s show ?thesis by blast
qed

lemma repr_frame:
  assumes "take (length h) h' = h" and "repr h a x"
  shows "repr h' a x"
proof -
  from assms(1) have "h' = h @ drop (length h) h'" by (metis append_take_drop_id)
  with repr_append[OF assms(2), of "drop (length h) h'"] show ?thesis by simp
qed

lemma slot_matches_readable:
  "slot_matches ser par doc slot \<Longrightarrow> \<not> slot_unreadable par slot"
  by (auto simp: slot_matches_def slot_unreadable_def split: option.splits)

text \<open>
  C2, as stated, has \<open>write\<close> return \<open>False\<close> (unchanged) exactly when the slot holds a
  document that serialises like the filtered one. \<open>write\<close> also returns \<open>False\<close>, and
  writes nothing, when no child of \<open>self\<close> is visible with a document, whatever the slot
  holds: this is what \<open>main\<close> gets when it was given no file, the forest being the root
  alone. Here the slot is missing, so it holds no document at all.
\<close>

theorem unchanged_with_empty_slot:
  "files built ''0.svg'' = None \<and>
   write_tree ideal_ser ideal_par 1 (Tree 0 None None []) ''0.svg'' built = Some (Inr False, built)"
  by (simp add: write_tree_def built_def)

text \<open>
  C2, amended. When no child of \<open>self\<close> is visible with a document, \<open>write\<close> returns
  \<open>False\<close> and changes nothing. Otherwise, for the first such child, whose document has
  the value \<open>x\<close>: when the slot holds bytes that do not parse, \<open>write\<close> raises the parser's
  error and the files stay as they are; when the slot holds bytes that parse to a
  document serialising like the filtered document \<open>prune_xml x\<close>, it returns \<open>False\<close> and
  the files stay as they are; in every other case (the slot is missing or holds another
  document) it returns \<open>True\<close> and the slot holds the serialised filtered document, the
  other files being as before. A second call in the state the first one left, when the
  first did not raise and the library reads back what it writes (the serialised document
  parses, to a document that serialises to the same bytes), returns \<open>False\<close> and leaves
  every file as it is.
\<close>

theorem write_cases:
  fixes w :: "'b world"
  shows "(shown self w = None \<longrightarrow> write_tree ser par n self path w = Some (Inr False, w)) \<and>
    (\<forall>c a x. shown self w = Some c \<and> tree c = Some a \<and> repr (heap w) a x \<and> depth x \<le> n \<longrightarrow>
       (\<exists>w'. write_tree ser par n self path w =
                Some (if slot_unreadable par (files w path) then Inl ParseError
                      else Inr (\<not> slot_matches ser par (prune_xml x) (files w path)), w') \<and>
              files w' = (if slot_unreadable par (files w path) \<or>
                             slot_matches ser par (prune_xml x) (files w path)
                          then files w else (files w)(path \<mapsto> ser (prune_xml x))) \<and>
              (\<not> slot_unreadable par (files w path) \<and>
               slot_matches ser par (prune_xml x) (Some (ser (prune_xml x))) \<longrightarrow>
                 (\<exists>w''. write_tree ser par n self path w' = Some (Inr False, w'') \<and>
                        files w'' = files w'))))"
proof (intro conjI allI impI)
  assume "shown self w = None"
  then show "write_tree ser par n self path w = Some (Inr False, w)"
    by (rule write_tree_none_shown)
next
  fix c a x
  assume A: "shown self w = Some c \<and> tree c = Some a \<and> repr (heap w) a x \<and> depth x \<le> n"
  then have sh: "shown self w = Some c" and tr: "tree c = Some a"
    and re: "repr (heap w) a x" and de: "depth x \<le> n" by simp_all
  let ?doc = "prune_xml x"
  let ?res = "if slot_unreadable par (files w path) then Inl ParseError
              else Inr (\<not> slot_matches ser par ?doc (files w path))"
  let ?files = "if slot_unreadable par (files w path) \<or> slot_matches ser par ?doc (files w path)
                then files w else (files w)(path \<mapsto> ser ?doc)"
  from write_tree_shown[OF sh tr re de, of ser par path] obtain h2 where
    fr: "take (length (heap w)) h2 = heap w" and
    w1: "write_tree ser par n self path w = Some (?res, w\<lparr>heap := h2, files := ?files\<rparr>)"
    by (elim exE conjE)
  define w' where "w' = w\<lparr>heap := h2, files := ?files\<rparr>"
  have f': "files w' = ?files" by (simp add: w'_def)
  have second: "\<exists>w''. write_tree ser par n self path w' = Some (Inr False, w'') \<and> files w'' = files w'"
    if ok: "\<not> slot_unreadable par (files w path) \<and> slot_matches ser par ?doc (Some (ser ?doc))"
  proof -
    have sh': "shown self w' = Some c" using sh by (simp add: shown_def w'_def)
    have re': "repr (heap w') a x" using repr_frame[OF fr re] by (simp add: w'_def)
    have m: "slot_matches ser par ?doc (files w' path)"
      using ok by (simp add: f')
    then have u: "\<not> slot_unreadable par (files w' path)" by (rule slot_matches_readable)
    from write_tree_shown[OF sh' tr re' de, of ser par path] m u
    show ?thesis by auto
  qed
  from w1 f' second
  show "\<exists>w'. write_tree ser par n self path w = Some (?res, w') \<and> files w' = ?files \<and>
          (\<not> slot_unreadable par (files w path) \<and>
           slot_matches ser par ?doc (Some (ser ?doc)) \<longrightarrow>
             (\<exists>w''. write_tree ser par n self path w' = Some (Inr False, w'') \<and>
                    files w'' = files w'))"
    unfolding w'_def by blast
qed

theorem write_cases_witness:
  "shown (Tree 0 None None []) hidden_root = None \<and>
   write_tree ideal_ser ideal_par 3 (Tree 0 None None []) ''0.svg'' hidden_root =
     Some (Inr False, hidden_root) \<and>
   shown hidden_root_forest hidden_root = Some (Tree 1 None (Some 0) []) \<and>
   repr (heap hidden_root) 0 hidden_root_doc \<and> depth hidden_root_doc \<le> 3 \<and>
   (\<exists>w'. write_tree ideal_ser ideal_par 3 hidden_root_forest ''0.svg'' hidden_root =
            Some (Inr True, w') \<and>
          files w' = (files hidden_root)(''0.svg'' \<mapsto> prune_xml hidden_root_doc) \<and>
          (\<exists>w''. write_tree ideal_ser ideal_par 3 hidden_root_forest ''0.svg'' w' =
                    Some (Inr False, w'') \<and> files w'' = files w'))"
proof -
  have n: "shown (Tree 0 None None []) hidden_root = None" by (simp add: shown_def)
  have s: "files hidden_root ''0.svg'' = None" by (simp add: hidden_root_def)
  have a: "write_tree ideal_ser ideal_par 3 (Tree 0 None None []) ''0.svg'' hidden_root =
     Some (Inr False, hidden_root)"
    using write_cases[of "Tree 0 None None []" hidden_root ideal_ser ideal_par 3 "''0.svg''"] n
    by blast
  have u: "\<not> slot_unreadable ideal_par (files hidden_root ''0.svg'')"
    and m: "\<not> slot_matches ideal_ser ideal_par (prune_xml hidden_root_doc) (files hidden_root ''0.svg'')"
    and rt: "slot_matches ideal_ser ideal_par (prune_xml hidden_root_doc)
               (Some (ideal_ser (prune_xml hidden_root_doc)))"
    by (simp_all add: s slot_unreadable_def slot_matches_def ideal_par_def ideal_ser_def)
  have b: "\<exists>w'. write_tree ideal_ser ideal_par 3 hidden_root_forest ''0.svg'' hidden_root =
            Some (Inr True, w') \<and>
          files w' = (files hidden_root)(''0.svg'' \<mapsto> prune_xml hidden_root_doc) \<and>
          (\<exists>w''. write_tree ideal_ser ideal_par 3 hidden_root_forest ''0.svg'' w' =
                    Some (Inr False, w'') \<and> files w'' = files w')"
    using write_cases[of hidden_root_forest hidden_root ideal_ser ideal_par 3 "''0.svg''",
        THEN conjunct2, rule_format, of "Tree 1 None (Some 0) []" 0 hidden_root_doc]
      hidden_root_shown hidden_root_repr hidden_root_depth u m rt
    by (simp add: ideal_ser_def)
  from n a hidden_root_shown hidden_root_repr hidden_root_depth b show ?thesis by (intro conjI)
qed

section \<open>Properties of the resolution of references\<close>

subsection \<open>Elements below the root\<close>

lemma fold_max_le: "\<forall>z\<in>set zs. z \<le> b \<Longrightarrow> fold max zs (0::nat) \<le> b"
  by (induction zs rule: rev_induct) simp_all

lemma edges_sound:
  "edges n h a = Some es \<Longrightarrow>
     \<forall>e\<in>set es. fst e < length h \<and> snd e < length h \<and> snd e \<in> set (kids (h ! fst e)) \<and>
                fst e \<in> insert a (snd ` set es)"
  "edges_from n h q ks = Some es \<Longrightarrow> q < length h \<Longrightarrow> set ks \<subseteq> set (kids (h ! q)) \<Longrightarrow>
     set ks \<subseteq> snd ` set es \<and>
     (\<forall>e\<in>set es. fst e < length h \<and> snd e < length h \<and> snd e \<in> set (kids (h ! fst e)) \<and>
                fst e \<in> insert q (snd ` set es))"
proof (induction n h a and n h q ks arbitrary: es and es rule: edges_edges_from.induct)
  case (1 h a)
  then show ?case by simp
next
  case (2 n h a)
  from "2.prems" have a: "a < length h" and e: "edges_from n h a (kids (h ! a)) = Some es"
    by (auto split: if_splits)
  from "2.IH"[OF a e a] show ?case by simp
next
  case (3 n h parent)
  then show ?case by simp
next
  case (4 n h parent k ks)
  from "4.prems" obtain below rest where b: "edges n h k = Some below"
    and r: "edges_from n h parent ks = Some rest" and es: "es = (parent, k) # below @ rest"
    by (auto split: option.splits)
  from b have k: "k < length h" by (cases n) (auto split: if_splits)
  from "4.prems"(3) have sub: "set ks \<subseteq> set (kids (h ! parent))" and kin: "k \<in> set (kids (h ! parent))"
    by simp_all
  note A = "4.IH"(1)[OF b]
  note B = "4.IH"(2)[OF b r "4.prems"(2) sub]
  have 1: "set (k # ks) \<subseteq> snd ` set es" using B by (auto simp: es)
  have 2: "fst e < length h \<and> snd e < length h \<and> snd e \<in> set (kids (h ! fst e)) \<and>
           fst e \<in> insert parent (snd ` set es)" if "e \<in> set es" for e
  proof -
    from that es consider "e = (parent, k)" | "e \<in> set below" | "e \<in> set rest" by auto
    then show ?thesis
    proof cases
      case 1
      with "4.prems"(2) k kin show ?thesis by simp
    next
      case 2
      with A have "fst e < length h \<and> snd e < length h \<and> snd e \<in> set (kids (h ! fst e)) \<and>
           fst e \<in> insert k (snd ` set below)" by blast
      then show ?thesis by (auto simp: es)
    next
      case 3
      with B have "fst e < length h \<and> snd e < length h \<and> snd e \<in> set (kids (h ! fst e)) \<and>
           fst e \<in> insert parent (snd ` set rest)" by blast
      then show ?thesis by (auto simp: es)
    qed
  qed
  from 1 2 show ?case by blast
qed

lemma repr_below_from:
  assumes IH: "\<And>k c es e. c \<in> set ts \<Longrightarrow> repr h k c \<Longrightarrow> edges n h k = Some es \<Longrightarrow> e \<in> set es \<Longrightarrow>
                 \<exists>y. repr h (snd e) y \<and> depth y < depth c"
  shows "list_all2 (repr h) ks cs \<Longrightarrow> set cs \<subseteq> set ts \<Longrightarrow> edges_from n h q ks = Some es \<Longrightarrow>
         e \<in> set es \<Longrightarrow> \<exists>y c. c \<in> set ts \<and> repr h (snd e) y \<and> depth y \<le> depth c"
proof (induction ks arbitrary: cs es)
  case Nil
  then show ?case by simp
next
  case (Cons k ks)
  from Cons.prems(1) obtain c cs' where cs: "cs = c # cs'" and kc: "repr h k c"
    and rest: "list_all2 (repr h) ks cs'"
    by (auto simp: list_all2_Cons1)
  from Cons.prems(2) cs have cin: "c \<in> set ts" and sub: "set cs' \<subseteq> set ts" by simp_all
  from Cons.prems(3) obtain below more where b: "edges n h k = Some below"
    and r: "edges_from n h q ks = Some more" and es: "es = (q, k) # below @ more"
    by (auto split: option.splits)
  from Cons.prems(4) es consider "e = (q, k)" | "e \<in> set below" | "e \<in> set more" by auto
  then show ?case
  proof cases
    case 1
    with kc cin show ?thesis by auto
  next
    case 2
    from IH[OF cin kc b 2] obtain y where "repr h (snd e) y" "depth y < depth c" by blast
    with cin show ?thesis by (intro exI[of _ y] exI[of _ c]) simp
  next
    case 3
    from Cons.IH[OF rest sub r 3] show ?thesis .
  qed
qed

lemma repr_descendant:
  "repr h a x \<Longrightarrow> edges n h a = Some es \<Longrightarrow> e \<in> set es \<Longrightarrow>
   \<exists>y. repr h (snd e) y \<and> depth y < depth x"
proof (induction x arbitrary: a n es e)
  case (Xml t at ts)
  from Xml.prems(2) obtain m where n: "n = Suc m" by (cases n) simp_all
  from Xml.prems(1) have a: "a < length h"
    and ks: "list_all2 (repr h) (kids (h ! a)) ts" by simp_all
  from Xml.prems(2) n a have ef: "edges_from m h a (kids (h ! a)) = Some es" by simp
  have "\<exists>y c. c \<in> set ts \<and> repr h (snd e) y \<and> depth y \<le> depth c"
    using ks subset_refl ef Xml.prems(3)
    by (rule repr_below_from[rotated]) (rule Xml.IH)
  then obtain y c where c: "c \<in> set ts" and y: "repr h (snd e) y" "depth y \<le> depth c" by blast
  from c have "depth c \<le> fold max (map depth ts) 0" by (intro fold_max_mem) simp
  with y show ?case by (intro exI[of _ y]) simp
qed

subsection \<open>Taking a child out\<close>

lemma length_remove_child [simp]: "length (remove_child p k h) = length h"
  by (simp add: remove_child_def)

lemma remove_child_cell:
  "a < length h \<Longrightarrow> tag (remove_child p k h ! a) = tag (h ! a) \<and>
     attrib (remove_child p k h ! a) = attrib (h ! a) \<and>
     set (kids (remove_child p k h ! a)) \<subseteq> set (kids (h ! a))"
  using set_remove1_subset[of k "kids (h ! p)"] by (cases "a = p") (auto simp: remove_child_def)

lemma repr_remove_child:
  "repr h a x \<Longrightarrow> \<exists>y. repr (remove_child p k h) a y \<and> depth y \<le> depth x"
proof (induction x arbitrary: a)
  case (Xml t at ts)
  let ?h = "remove_child p k h"
  let ?b = "fold max (map depth ts) 0"
  from Xml.prems have a: "a < length h" and tg: "tag (h ! a) = t" and at: "attrib (h ! a) = at"
    and ks: "list_all2 (repr h) (kids (h ! a)) ts" by simp_all
  have "\<forall>c\<in>set (kids (h ! a)). \<exists>y. repr ?h c y \<and> depth y \<le> ?b"
  proof
    fix c assume "c \<in> set (kids (h ! a))"
    then obtain i where i: "i < length (kids (h ! a))" and c: "c = kids (h ! a) ! i"
      by (auto simp: in_set_conv_nth)
    from ks i have r: "repr h c (ts ! i)" and it: "i < length ts"
      by (auto simp: c list_all2_conv_all_nth)
    then have tin: "ts ! i \<in> set ts" by simp
    from Xml.IH[OF tin r] obtain y where y: "repr ?h c y" "depth y \<le> depth (ts ! i)" by blast
    from tin have "depth (ts ! i) \<le> ?b" by (intro fold_max_mem) simp
    with y show "\<exists>y. repr ?h c y \<and> depth y \<le> ?b" by (intro exI[of _ y]) simp
  qed
  then obtain f where f: "\<forall>c\<in>set (kids (h ! a)). repr ?h c (f c) \<and> depth (f c) \<le> ?b"
    by (rule bchoice[THEN exE])
  let ?ks = "kids (?h ! a)"
  from remove_child_cell[OF a, of p k] have cell: "tag (?h ! a) = t" "attrib (?h ! a) = at"
    "set ?ks \<subseteq> set (kids (h ! a))" using tg at by simp_all
  have "list_all2 (repr ?h) ?ks (map f ?ks)"
    using cell(3) f by (auto simp: list_all2_map2 intro!: list.rel_refl_strong)
  with a cell have 1: "repr ?h a (Xml t at (map f ?ks))" by simp
  have "fold max (map depth (map f ?ks)) 0 \<le> ?b"
    using cell(3) f by (intro fold_max_le) auto
  then have 2: "depth (Xml t at (map f ?ks)) \<le> depth (Xml t at ts)" by simp
  from 1 2 show ?case by blast
qed


subsection \<open>Updates of a cell\<close>

lemma length_elem_set [simp]: "length (elem_set a k v h) = length h"
  by (simp add: elem_set_def)

lemma length_set_tag [simp]: "length (set_tag a t h) = length h"
  by (simp add: set_tag_def)

lemma length_insert_child [simp]: "length (insert_child p i c h) = length h"
  by (simp add: insert_child_def)

lemma attrib_elem_set_other: "b \<noteq> a \<Longrightarrow> attrib (elem_set a k v h ! b) = attrib (h ! b)"
  by (simp add: elem_set_def)

lemma attrib_elem_set_same:
  "a < length h \<Longrightarrow> attrib (elem_set a k v h ! a) = dict_set k v (attrib (h ! a))"
  by (simp add: elem_set_def)

lemma attrib_set_tag [simp]: "attrib (set_tag a t h ! b) = attrib (h ! b)"
  by (cases "a < length h"; cases "b = a") (simp_all add: set_tag_def list_update_beyond)

lemma attrib_insert_child [simp]: "attrib (insert_child p i c h ! b) = attrib (h ! b)"
  by (cases "p < length h"; cases "b = p") (simp_all add: insert_child_def list_update_beyond)

lemma kids_insert_child:
  "p < length h \<Longrightarrow> c \<in> set (kids (insert_child p i c h ! p))"
  by (simp add: insert_child_def)

lemma map_of_dict_set_same: "map_of (dict_set k v d) k = Some v"
  by (simp add: map_of_dict_set)

lemma index_of_mem: "x \<in> set ks \<Longrightarrow> \<exists>i. index_of x ks = Some i"
  by (induction ks) auto

subsection \<open>The parent map\<close>

lemma parent_map_descendant:
  assumes ds: "descendants n h root = Some ds" and x: "x \<in> set ds"
  shows "\<exists>pmap p. parent_map n h root = Some pmap \<and> pmap x = Some p \<and> p < length h \<and>
           x < length h \<and> x \<in> set (kids (h ! p))"
proof -
  from ds obtain es where es: "edges n h root = Some es" and dse: "ds = map snd es"
    by (auto simp: descendants_def)
  from es have root: "root < length h" by (cases n) (auto split: if_splits)
  note S = edges_sound(1)[OF es]
  let ?pairs = "parent_pairs h (root # ds)"
  have in_pairs: "(c, p) \<in> set ?pairs \<longleftrightarrow> p \<in> set (root # ds) \<and> c \<in> set (kids (h ! p))" for c p
    by (auto simp: parent_pairs_def)
  from x dse obtain e where e: "e \<in> set es" and xe: "x = snd e" by auto
  with S have q: "fst e < length h" "x < length h" "x \<in> set (kids (h ! fst e))"
    "fst e \<in> insert root (snd ` set es)" by auto
  then have "(x, fst e) \<in> set ?pairs" unfolding in_pairs by (auto simp: dse)
  then have "x \<in> fst ` set (rev ?pairs)" by force
  then obtain p where p: "map_of (rev ?pairs) x = Some p"
    by (metis map_of_eq_None_iff not_Some_eq)
  then have "(x, p) \<in> set ?pairs" by (auto dest: map_of_SomeD)
  then have pin: "p \<in> set (root # ds)" and xin: "x \<in> set (kids (h ! p))"
    unfolding in_pairs by simp_all
  have "p < length h"
  proof (cases "p = root")
    case True
    with root show ?thesis by simp
  next
    case False
    with pin dse obtain e' where "e' \<in> set es" "p = snd e'" by auto
    with S show ?thesis by auto
  qed
  with p xin q(2) ds show ?thesis by (simp add: parent_map_def)
qed

subsection \<open>One reference\<close>

lemma resolve_use_merges:
  assumes href: "elem_get h x (xlink ''href'') = Some href"
    and tgt: "find_id n h root (drop 1 href) = Some (Some target)"
    and pm: "pmap x = Some parent" and p: "parent < length h"
    and xin: "x \<in> set (kids (h ! parent))"
    and xl: "x < length h" and tl: "target < length h"
    and tr: "repr h target y" "depth y \<le> n"
    and u: "css_to_dict (attrib_get h x ''style'' '''') = Inr use_css"
    and t: "css_to_dict (attrib_get h target ''style'' '''') = Inr target_css"
  shows "\<exists>h' new. resolve_use n pmap root x h = Some (Inr h') \<and> length h \<le> new \<and>
           new \<in> set (kids (h' ! parent)) \<and>
           elem_get h' new ''style'' = Some (dict_to_css (dict_update use_css target_css))"
proof -
  from index_of_mem[OF xin] obtain i where i: "index_of x (kids (h ! parent)) = Some i" by blast
  let ?h1 = "remove_child parent x h"
  from repr_remove_child[OF tr(1), of parent x] obtain y1 where
    y1: "repr ?h1 target y1" "depth y1 \<le> depth y" by blast
  from y1(2) tr(2) have "depth y1 \<le> n" by simp
  with y1(1) obtain new h2 where d: "deepcopy n target ?h1 = Some (new, h2)"
    using deepcopy_repr by blast
  from deepcopy_frame[OF d] obtain cells where h2: "h2 = ?h1 @ cells"
    and nl: "length h \<le> new" and nu: "new < length h2" by auto
  have old2: "attrib (h2 ! a) = attrib (h ! a)" if "a < length h" for a
    using that remove_child_cell[OF that, of parent x] by (simp add: h2 nth_append)
  define h3 where "h3 = elem_set new ''transform'' (merged_transform h2 x new) h2"
  have old3: "attrib (h3 ! a) = attrib (h ! a)" if "a < length h" for a
    using that nl old2[OF that] by (simp add: h3_def attrib_elem_set_other)
  have u3: "attrib_get h3 x ''style'' '''' = attrib_get h x ''style'' ''''"
    and t3: "attrib_get h3 target ''style'' '''' = attrib_get h target ''style'' ''''"
    using old3[OF xl] old3[OF tl] by (simp_all add: attrib_get_def elem_get_def)
  define h4 where "h4 = elem_set new ''style'' (dict_to_css (dict_update use_css target_css)) h3"
  define h5 where "h5 = (if tag (h4 ! new) = svg ''symbol'' then set_tag new (svg ''g'') h4 else h4)"
  define h6 where "h6 = insert_child parent i new h5"
  have res: "resolve_use n pmap root x h = Some (Inr h6)"
    using href tgt pm i d u t
    by (simp add: resolve_use_def Let_def h3_def[symmetric] u3 t3 h4_def[symmetric]
        h5_def[symmetric] h6_def[symmetric])
  have l3: "length h3 = length h2" by (simp add: h3_def)
  have l5: "length h5 = length h2" by (simp add: h5_def h4_def l3)
  have "attrib (h4 ! new) = dict_set ''style'' (dict_to_css (dict_update use_css target_css)) (attrib (h3 ! new))"
    using nu l3 by (simp add: h4_def attrib_elem_set_same)
  then have "map_of (attrib (h6 ! new)) ''style'' = Some (dict_to_css (dict_update use_css target_css))"
    by (simp add: h6_def h5_def map_of_dict_set_same)
  then have st: "elem_get h6 new ''style'' = Some (dict_to_css (dict_update use_css target_css))"
    by (simp add: elem_get_def)
  have "parent < length h5" using p l5 by (simp add: h2)
  then have kid: "new \<in> set (kids (h6 ! parent))" unfolding h6_def by (rule kids_insert_child)
  from res nl kid st show ?thesis by blast
qed

section \<open>Claims about references\<close>

text \<open>
  C3. Take a document that the store holds below \<open>root\<close>, the depth bound covering it, in
  which the search for \<open>use\<close> elements finds one element \<open>x\<close>, whose link attribute is
  there and whose target the search by identifier finds. When the style of \<open>x\<close> parses to
  the keys \<open>A\<close> and \<open>B\<close>, in this order and distinct, with the values \<open>a2\<close> and \<open>b\<close> (the
  claim's \<open>2\<close> and \<open>3\<close>), and the style of the target parses to the key \<open>A\<close> alone with the
  value \<open>a1\<close> (the claim's \<open>1\<close>), the loop of \<open>load_presentation\<close> ends without error; \<open>x\<close>
  had a parent, and in the store that results a new element among the children of that
  parent carries as style the serialisation of the map with \<open>A\<close> at \<open>a1\<close>, the target's value,
  followed by \<open>B\<close> at \<open>b\<close>, the reference's value, in the reference's key order: the text
  \<open>A: a1; B: b\<close>.
\<close>

theorem use_style_merge:
  assumes doc: "repr h root doc" "depth doc \<le> n"
    and uses: "findall_use n h root = Some [x]"
    and href: "elem_get h x (xlink ''href'') = Some href"
    and tgt: "find_id n h root (drop 1 href) = Some (Some target)"
    and u: "css_to_dict (attrib_get h x ''style'' '''') = Inr [(A, a2), (B, b)]"
    and t: "css_to_dict (attrib_get h target ''style'' '''') = Inr [(A, a1)]"
    and AB: "A \<noteq> B"
  shows "\<exists>h' new parent. resolve_uses n root h = Some (Inr h') \<and>
           x \<in> set (kids (h ! parent)) \<and> length h \<le> new \<and> new \<in> set (kids (h' ! parent)) \<and>
           elem_get h' new ''style'' = Some (dict_to_css [(A, a1), (B, b)]) \<and>
           dict_to_css [(A, a1), (B, b)] = A @ '': '' @ a1 @ ''; '' @ B @ '': '' @ b"
proof -
  from uses obtain ds where ds: "descendants n h root = Some ds"
    and f: "filter (\<lambda>k. tag (h ! k) = svg ''use'') ds = [x]"
    by (auto simp: findall_use_def)
  from ds obtain es where es: "edges n h root = Some es" and dse: "ds = map snd es"
    by (auto simp: descendants_def)
  have "x \<in> set (filter (\<lambda>k. tag (h ! k) = svg ''use'') ds)" by (simp add: f)
  then have xin: "x \<in> set ds" by simp
  from tgt ds have "find (\<lambda>k. elem_get h k ''id'' = Some (drop 1 href)) ds = Some target"
    by (auto simp: find_id_def split: if_splits)
  then have tin: "target \<in> set ds" by (auto simp: find_Some_iff)
  from parent_map_descendant[OF ds xin] obtain pmap parent where
    pm: "parent_map n h root = Some pmap" "pmap x = Some parent" and p: "parent < length h"
    and xl: "x < length h" and xk: "x \<in> set (kids (h ! parent))" by blast
  from tin dse obtain e where e: "e \<in> set es" and te: "target = snd e" by auto
  from edges_sound(1)[OF es] e te have tl: "target < length h" by auto
  from repr_descendant[OF doc(1) es e] te doc(2) obtain y where
    y: "repr h target y" "depth y \<le> n" by auto
  from resolve_use_merges[where pmap = pmap, OF href tgt pm(2) p xk xl tl y u t]
  obtain h' new where
    r: "resolve_use n pmap root x h = Some (Inr h')" and n: "length h \<le> new"
    and k: "new \<in> set (kids (h' ! parent))"
    and s: "elem_get h' new ''style'' = Some (dict_to_css (dict_update [(A, a2), (B, b)] [(A, a1)]))"
    by blast
  have loop: "resolve_uses n root h = Some (Inr h')"
    using pm(1) uses r by (simp add: resolve_uses_def)
  have m: "dict_update [(A, a2), (B, b)] [(A, a1)] = [(A, a1), (B, b)]" by simp
  have c: "dict_to_css [(A, a1), (B, b)] = A @ '': '' @ a1 @ ''; '' @ B @ '': '' @ b"
    by (simp add: dict_to_css_def)
  from loop xk n k s c show ?thesis unfolding m by blast
qed

theorem use_style_merge_witness:
  "repr with_use 0 with_use_doc \<and> depth with_use_doc \<le> 2 \<and>
   findall_use 2 with_use 0 = Some [2] \<and>
   find_id 2 with_use 0 ''r'' = Some (Some 1) \<and>
   css_to_dict ''fill:2; stroke:3'' = Inr [(''fill'', ''2''), (''stroke'', ''3'')] \<and>
   css_to_dict ''fill: 1'' = Inr [(''fill'', ''1'')] \<and>
   (\<exists>h' new parent. resolve_uses 2 0 with_use = Some (Inr h') \<and>
      2 \<in> set (kids (with_use ! parent)) \<and> new \<in> set (kids (h' ! parent)) \<and>
      elem_get h' new ''style'' = Some ''fill: 1; stroke: 3'')"
proof -
  have doc: "repr with_use 0 with_use_doc" "depth with_use_doc \<le> 2"
    by (simp_all add: with_use_def with_use_doc_def)
  have uses: "findall_use 2 with_use 0 = Some [2]"
    by (simp add: findall_use_def descendants_def with_use_def svg_def eval_nat_numeral)
  have href: "elem_get with_use 2 (xlink ''href'') = Some ''#r''"
    by (simp add: elem_get_def with_use_def)
  have tgt: "find_id 2 with_use 0 ''r'' = Some (Some 1)"
    by (simp add: find_id_def descendants_def with_use_def elem_get_def eval_nat_numeral)
  have pu: "css_to_dict ''fill:2; stroke:3'' = Inr [(''fill'', ''2''), (''stroke'', ''3'')]"
    by (simp add: css_to_dict_def strip_def is_space_def)
  have pt: "css_to_dict ''fill: 1'' = Inr [(''fill'', ''1'')]"
    by (simp add: css_to_dict_def strip_def is_space_def)
  have u: "css_to_dict (attrib_get with_use 2 ''style'' '''') = Inr [(''fill'', ''2''), (''stroke'', ''3'')]"
    using pu by (simp add: attrib_get_def elem_get_def with_use_def xlink_def)
  have t: "css_to_dict (attrib_get with_use 1 ''style'' '''') = Inr [(''fill'', ''1'')]"
    using pt by (simp add: attrib_get_def elem_get_def with_use_def)
  have "\<exists>h' new parent. resolve_uses 2 0 with_use = Some (Inr h') \<and>
      2 \<in> set (kids (with_use ! parent)) \<and> new \<in> set (kids (h' ! parent)) \<and>
      elem_get h' new ''style'' = Some ''fill: 1; stroke: 3''"
    using use_style_merge[where h = with_use and root = 0 and n = 2 and x = 2 and
        href = "''#r''" and target = 1, OF doc uses href _ u t] tgt
    by (simp add: dict_to_css_def) blast
  with doc uses tgt pu pt show ?thesis by (intro conjI)
qed

end
